theory Spec2Isabelle
  imports Main "HOL-Library.Word"
begin

section \<open>Machine types and exceptions\<close>

text \<open>
  \<^verbatim>\<open>size_t\<close> and \<^verbatim>\<open>uint64_t\<close> are 64-bit unsigned words (an LP64 / LLP64 target),
  \<^verbatim>\<open>unsigned int\<close> is a 32-bit word. All arithmetic on them wraps around.
\<close>

type_synonym size_t = "64 word"
type_synonym uint64_t = "64 word"
type_synonym uint8_t = "8 word"
type_synonym CURLcode = nat

text \<open>A piece of a \<^verbatim>\<open>string_exception\<close> message: the variadic constructor
  concatenates text and numbers.\<close>

datatype msgpart = Str string | Num uint64_t

datatype exn =
    Out_of_range string
  | Invalid_argument string
  | Bad_alloc
  | String_exception "msgpart list"

section \<open>align_up and the constructor\<close>

definition align_up :: "size_t \<Rightarrow> 32 word \<Rightarrow> exn + size_t" where
  "align_up val alignment =
     (if alignment < 1 then Inl (Out_of_range ''alignment'')
      else Inr (if val = 0 then 0
                else val + ((ucast alignment - (val mod ucast alignment)) mod ucast alignment)))"

section \<open>The instance\<close>

text \<open>
  The transport session behind \<^verbatim>\<open>m_curl\<close>: the options the code sets on it, and whether
  the transport has paused the transfer (a write callback returned the pause value and
  \<^verbatim>\<open>curl_easy_pause(.., CURLPAUSE_CONT)\<close> has not been called since).
\<close>

record curl_session =
  c_url :: string
  c_range :: "string option"
  c_paused :: bool

text \<open>
  One invocation of a callback by the transport, on the worker thread, with the
  arguments the transport passes. For a header, the first argument is the memory at the
  \<^verbatim>\<open>data\<close> pointer (at least \<^verbatim>\<open>size * count\<close> bytes of it are the header line).
\<close>

datatype callback =
    Header "char list" size_t size_t
  | Write "uint8_t list option" size_t size_t
  | XferInfo

text \<open>
  The worker thread running \<^verbatim>\<open>transfer_func\<close>: created but not yet started, inside
  \<^verbatim>\<open>curl_easy_perform\<close> (with the callbacks the transport will still make, and the
  result code and error text it will end with), or finished. \<^verbatim>\<open>m_worker\<close> is
  \<open>None\<close> when the thread handle is not joinable.
\<close>

datatype worker =
    Spawned "callback list" CURLcode string
  | Performing "callback list" CURLcode string
  | Exited

record livestream =
  m_buffersize :: size_t
  m_buffer :: "nat \<Rightarrow> uint8_t"
  m_bufferhead :: size_t
  m_buffertail :: size_t
  m_startpos :: uint64_t
  m_readpos :: uint64_t
  m_writepos :: uint64_t
  m_length :: uint64_t
  m_started :: bool
  m_paused :: bool
  m_stop :: bool
  m_curl :: "curl_session option"
  m_curlresult :: CURLcode
  m_curlerr :: string
  m_worker :: "worker option"

text \<open>The two values of the transport library that the code names.\<close>

definition CURLE_OK :: CURLcode where
  "CURLE_OK = 0"

definition CURL_WRITEFUNC_PAUSE :: size_t where
  "CURL_WRITEFUNC_PAUSE = 0x10000001"

text \<open>
  The constructor. \<^verbatim>\<open>WRITE_PADDING\<close> is a class constant declared in the header, which
  is not among the sources: it is the parameter \<open>wp\<close> here and below. \<open>alloc_ok\<close> says
  whether the two allocations succeed. The ring storage is a map from the offset within
  the allocation to the byte stored there; offsets from \<open>m_buffersize\<close> on lie outside
  the allocation. The constructor's own code sets the capacity only; the other members
  get their initial values in the header: they are taken to be the stream state that
  \<^verbatim>\<open>reset_stream_state\<close> leaves, length 0, no transport session and no worker.
\<close>

definition livestream_ctor :: "size_t \<Rightarrow> bool \<Rightarrow> (nat \<Rightarrow> uint8_t) \<Rightarrow> size_t \<Rightarrow> exn + livestream" where
  "livestream_ctor wp alloc_ok storage buffersize =
     (case align_up (buffersize + wp) 65536 of
        Inl e \<Rightarrow> Inl e
      | Inr sz \<Rightarrow>
          if \<not> alloc_ok then Inl Bad_alloc
          else Inr \<lparr> m_buffersize = sz, m_buffer = storage,
                     m_bufferhead = 0, m_buffertail = 0,
                     m_startpos = 0, m_readpos = 0, m_writepos = 0, m_length = 0,
                     m_started = False, m_paused = False, m_stop = False,
                     m_curl = None, m_curlresult = CURLE_OK, m_curlerr = [],
                     m_worker = None \<rparr>)"

section \<open>The header callback\<close>

definition isspace :: "char \<Rightarrow> bool" where
  "isspace c = (c = CHR '' '' \<or> c = CHR 0x09 \<or> c = CHR 0x0A \<or> c = CHR 0x0B
                \<or> c = CHR 0x0C \<or> c = CHR 0x0D)"

definition isdigit :: "char \<Rightarrow> bool" where
  "isdigit c = (48 \<le> (of_char c :: nat) \<and> (of_char c :: nat) \<le> 57)"

definition digit_val :: "char \<Rightarrow> nat" where
  "digit_val c = of_char c - 48"

definition decimal_val :: "char list \<Rightarrow> nat" where
  "decimal_val ds = foldl (\<lambda>acc c. 10 * acc + digit_val c) 0 ds"

text \<open>A literal of a \<^verbatim>\<open>scanf\<close> format: the input must start with it.\<close>

definition scan_literal :: "string \<Rightarrow> string \<Rightarrow> string option" where
  "scan_literal lit txt = (if take (length lit) txt = lit then Some (drop (length lit) txt) else None)"

text \<open>
  The conversion \<^verbatim>\<open>%llu\<close>: skip white space, then an optional sign and at least one
  decimal digit, converted as \<^verbatim>\<open>strtoull\<close> does: a value that does not fit is
  \<^verbatim>\<open>ULLONG_MAX\<close>, a minus sign negates the value modulo \<open>2^64\<close>.
\<close>

definition scan_llu :: "string \<Rightarrow> uint64_t option" where
  "scan_llu txt =
     (let t = dropWhile isspace txt;
          neg = (t \<noteq> [] \<and> hd t = CHR ''-'');
          t' = (if t \<noteq> [] \<and> (hd t = CHR ''-'' \<or> hd t = CHR ''+'') then tl t else t);
          ds = takeWhile isdigit t'
      in if ds = [] then None
         else if decimal_val ds \<ge> 2 ^ 64 then Some (- 1)
         else if neg then Some (- of_nat (decimal_val ds))
         else Some (of_nat (decimal_val ds)))"

text \<open>
  \<^verbatim>\<open>sscanf(data, "Content-Range: bytes %llu-", &rangestart) == 1\<close>: the result is the
  value stored when the call returns 1. A blank in the format matches any amount of white
  space, also none; the final \<^verbatim>\<open>-\<close> of the format comes after the only conversion and
  has no effect on the return value.
\<close>

definition sscanf_content_range :: "string \<Rightarrow> uint64_t option" where
  "sscanf_content_range txt =
     (case scan_literal ''Content-Range:'' txt of
        None \<Rightarrow> None
      | Some r1 \<Rightarrow>
          (case scan_literal ''bytes'' (dropWhile isspace r1) of
             None \<Rightarrow> None
           | Some r2 \<Rightarrow> scan_llu (dropWhile isspace r2)))"

text \<open>The C string at a pointer: the bytes before the first NUL.\<close>

definition c_str :: "char list \<Rightarrow> string" where
  "c_str mem = takeWhile (\<lambda>c. c \<noteq> CHR 0x00) mem"

text \<open>
  \<^verbatim>\<open>curl_responseheaders\<close>. \<^verbatim>\<open>strncmp\<close> over 14 characters against a literal without
  NUL is equality of the first 14 bytes. The local copy \<^verbatim>\<open>buffer\<close> is made and not
  used: \<^verbatim>\<open>sscanf\<close> is given \<^verbatim>\<open>data\<close>, so it reads the C string found there.
\<close>

definition curl_responseheaders :: "char list \<Rightarrow> size_t \<Rightarrow> size_t \<Rightarrow> livestream \<Rightarrow> size_t \<times> livestream" where
  "curl_responseheaders data sz count s =
     (let cb = sz * count in
      if cb = 0 then (0, s)
      else if cb \<ge> 14 \<and> take 14 data = ''Content-Range:'' then
        (case sscanf_content_range (c_str data) of
           Some rangestart \<Rightarrow>
             (cb, s\<lparr> m_startpos := rangestart, m_readpos := rangestart, m_writepos := rangestart \<rparr>)
         | None \<Rightarrow> (cb, s))
      else (cb, s))"

section \<open>The progress callback\<close>

definition curl_easy_pause_cont :: "curl_session option \<Rightarrow> curl_session option" where
  "curl_easy_pause_cont c = map_option (\<lambda>h. h\<lparr> c_paused := False \<rparr>) c"

definition curl_transfercontrol :: "livestream \<Rightarrow> int \<times> livestream" where
  "curl_transfercontrol s =
     (if m_stop s then (- 1, s\<lparr> m_stop := False \<rparr>)
      else if m_paused s then (0, s\<lparr> m_paused := False, m_curl := curl_easy_pause_cont (m_curl s) \<rparr>)
      else (0, s))"

section \<open>The ring buffer: writer and reader\<close>

text \<open>
  \<^verbatim>\<open>memcpy\<close> into and out of the ring storage. A source shorter than the requested
  count yields only the bytes it has (the C++ would read past its end).
\<close>

definition store_bytes :: "(nat \<Rightarrow> uint8_t) \<Rightarrow> nat \<Rightarrow> uint8_t list \<Rightarrow> (nat \<Rightarrow> uint8_t)" where
  "store_bytes buf off src = (\<lambda>i. if off \<le> i \<and> i < off + length src then src ! (i - off) else buf i)"

definition load_bytes :: "(nat \<Rightarrow> uint8_t) \<Rightarrow> nat \<Rightarrow> nat \<Rightarrow> uint8_t list" where
  "load_bytes buf off n = map buf [off ..< off + n]"

text \<open>
  The \<^verbatim>\<open>while(cb)\<close> loop of \<^verbatim>\<open>curl_write\<close>. It does not return when the capacity and
  the tail are both 0, so its result is an option: \<open>None\<close> is the loop running forever.
\<close>

partial_function (option) write_loop ::
  "size_t \<Rightarrow> size_t \<Rightarrow> uint8_t list \<Rightarrow> (nat \<Rightarrow> uint8_t) \<Rightarrow> size_t \<Rightarrow> size_t \<Rightarrow> size_t
     \<Rightarrow> ((nat \<Rightarrow> uint8_t) \<times> size_t \<times> size_t) option" where
  "write_loop bufsz tail data buf head byteswritten cb =
     (if cb = 0 then Some (buf, head, byteswritten)
      else
        let chunk = (if head < tail then min cb (tail - head) else min cb (bufsz - head));
            buf' = store_bytes buf (unat head) (take (unat chunk) (drop (unat byteswritten) data));
            head' = head + chunk
        in write_loop bufsz tail data buf' (if head' \<ge> bufsz then 0 else head')
             (byteswritten + chunk) (cb - chunk))"

text \<open>The \<^verbatim>\<open>while(count)\<close> loop of \<^verbatim>\<open>read\<close>, with its \<^verbatim>\<open>break\<close>.\<close>

function read_loop ::
  "size_t \<Rightarrow> (nat \<Rightarrow> uint8_t) \<Rightarrow> size_t \<Rightarrow> uint8_t list \<Rightarrow> size_t \<Rightarrow> size_t \<Rightarrow> size_t
     \<Rightarrow> uint8_t list \<times> size_t \<times> size_t" where
  "read_loop bufsz buf head out tail bytesread count =
     (if count = 0 then (out, tail, bytesread)
      else
        let chunk = (if tail < head then min count (head - tail) else min count (bufsz - tail));
            out' = out @ load_bytes buf (unat tail) (unat chunk);
            tail' = tail + chunk;
            tail'' = (if tail' \<ge> bufsz then 0 else tail')
        in if tail'' = head then (out', tail'', bytesread + chunk)
           else read_loop bufsz buf head out' tail'' (bytesread + chunk) (count - chunk))"
  by pat_completeness auto
termination
proof (relation "measure (\<lambda>(bufsz, buf, head, out, tail, bytesread, count).
          2 * unat count + (if tail = bufsz \<and> bufsz \<noteq> 0 then 1 else 0))", goal_cases)
  case 1 show ?case by simp
next
  case (2 bufsz buf head out tail bytesread count chunk out' tail' tail'')
  show ?case
  proof (cases "chunk = 0")
    case True
    with 2 have "\<not> tail < head" "tail = bufsz"
      by (auto simp: min_def split: if_splits)
    with 2 True show ?thesis by (auto simp: word_neq_0_conv split: if_splits)
  next
    case False
    have "chunk \<le> count" using 2 by (auto simp: min_def split: if_splits)
    with False have "unat (count - chunk) < unat count"
      by unat_arith
    then show ?thesis by (auto split: if_splits)
  qed
qed

declare read_loop.simps [simp del]

text \<open>
  \<^verbatim>\<open>curl_write\<close>. The context pointer is the instance itself (the code registers
  \<^verbatim>\<open>this\<close>); \<open>data = None\<close> is a null data pointer. The result is the value returned
  to the transport and the new state; \<open>None\<close> when the copy loop does not return.
\<close>

definition curl_write :: "size_t \<Rightarrow> uint8_t list option \<Rightarrow> size_t \<Rightarrow> size_t \<Rightarrow> livestream \<Rightarrow> (size_t \<times> livestream) option" where
  "curl_write wp data sz count s =
     (let cb = sz * count in
      if data = None \<or> cb = 0 then Some (0, s)
      else
        let head = m_bufferhead s;
            tail = m_buffertail s;
            available = (if head < tail then tail - head else (m_buffersize s - head) + tail)
        in if available < cb + wp then Some (CURL_WRITEFUNC_PAUSE, s\<lparr> m_paused := True \<rparr>)
           else
             (case write_loop (m_buffersize s) tail (the data) (m_buffer s) head 0 cb of
                None \<Rightarrow> None
              | Some (buf, head', byteswritten) \<Rightarrow>
                  let writepos = m_writepos s + byteswritten
                  in Some (byteswritten,
                       s\<lparr> m_buffer := buf, m_bufferhead := head', m_writepos := writepos,
                          m_length := (if writepos > m_length s then writepos else m_length s),
                          m_started := True \<rparr>)))"

text \<open>
  \<^verbatim>\<open>read\<close>. \<open>buffer = None\<close> is a null destination; otherwise it holds the destination's
  bytes, and the result carries them after the copy. The timed wait on the condition
  variable is modelled by its outcome on the state at its last evaluation of the
  predicate: it gives up exactly when head and tail are still equal then.
\<close>

definition read :: "uint8_t list option \<Rightarrow> size_t \<Rightarrow> 32 word \<Rightarrow> livestream
     \<Rightarrow> exn + (size_t \<times> uint8_t list \<times> livestream)" where
  "read buffer count timeoutms s =
     (case buffer of
        None \<Rightarrow> Inl (Invalid_argument ''buffer'')
      | Some dest \<Rightarrow>
          if count > m_buffersize s then Inl (Invalid_argument ''count'')
          else if count = 0 then Inr (0, dest, s)
          else
            let head = m_bufferhead s; tail = m_buffertail s
            in if \<not> (head \<noteq> tail) then Inr (0, dest, s)
               else
                 (case read_loop (m_buffersize s) (m_buffer s) head [] tail 0 count of
                    (out, tail', bytesread) \<Rightarrow>
                      Inr (bytesread, out @ drop (length out) dest,
                           s\<lparr> m_buffertail := tail', m_readpos := m_readpos s + bytesread \<rparr>)))"

definition length_of :: "livestream \<Rightarrow> uint64_t" where
  "length_of s = m_length s"

definition position :: "livestream \<Rightarrow> uint64_t" where
  "position s = m_readpos s"

section \<open>Resetting the stream state\<close>

definition reset_stream_state :: "bool \<Rightarrow> livestream \<Rightarrow> exn + livestream" where
  "reset_stream_state owns_lock s =
     (if \<not> owns_lock then
        Inl (String_exception [Str ''reset_stream_state'', Str '': caller does not own the unique_lock<>''])
      else if m_worker s \<noteq> None then
        Inl (String_exception [Str ''reset_stream_state'', Str '': cannot reset an active data transfer''])
      else Inr (s\<lparr> m_started := False, m_paused := False, m_stop := False,
                    m_startpos := 0, m_readpos := 0, m_writepos := 0,
                    m_bufferhead := 0, m_buffertail := 0 \<rparr>))"

section \<open>The worker thread\<close>

text \<open>What the transport does to its session when a write callback returns the pause value.\<close>

definition transport_pause :: "curl_session option \<Rightarrow> curl_session option" where
  "transport_pause c = map_option (\<lambda>h. h\<lparr> c_paused := True \<rparr>) c"

definition callback_step :: "size_t \<Rightarrow> callback \<Rightarrow> livestream \<Rightarrow> livestream option" where
  "callback_step wp cb s =
     (case cb of
        Header data sz count \<Rightarrow> Some (snd (curl_responseheaders data sz count s))
      | Write data sz count \<Rightarrow>
          (case curl_write wp data sz count s of
             None \<Rightarrow> None
           | Some (r, s') \<Rightarrow>
               Some (if r = CURL_WRITEFUNC_PAUSE then s'\<lparr> m_curl := transport_pause (m_curl s') \<rparr> else s'))
      | XferInfo \<Rightarrow> Some (snd (curl_transfercontrol s)))"

text \<open>
  One step of the worker thread: the prologue of \<^verbatim>\<open>transfer_func\<close>, one callback made
  from inside \<^verbatim>\<open>curl_easy_perform\<close>, or its return and the epilogue.
\<close>

definition worker_step :: "size_t \<Rightarrow> livestream \<Rightarrow> livestream option" where
  "worker_step wp s =
     (case m_worker s of
        Some (Spawned cbs r e) \<Rightarrow>
          Some (s\<lparr> m_curlresult := CURLE_OK, m_curlerr := [], m_worker := Some (Performing cbs r e) \<rparr>)
      | Some (Performing (cb # cbs) r e) \<Rightarrow>
          (case callback_step wp cb s of
             None \<Rightarrow> None
           | Some s' \<Rightarrow> Some (s'\<lparr> m_worker := Some (Performing cbs r e) \<rparr>))
      | Some (Performing [] r e) \<Rightarrow>
          Some (s\<lparr> m_curlresult := r, m_curlerr := e, m_started := True, m_worker := Some Exited \<rparr>)
      | _ \<Rightarrow> Some s)"

primrec worker_steps :: "size_t \<Rightarrow> nat \<Rightarrow> livestream \<Rightarrow> livestream option" where
  "worker_steps wp 0 s = Some s"
| "worker_steps wp (Suc n) s = (case worker_step wp s of None \<Rightarrow> None | Some s' \<Rightarrow> worker_steps wp n s')"

text \<open>
  \<^verbatim>\<open>m_started.wait_until_equals(true)\<close>: the caller is blocked while the worker runs;
  \<open>None\<close> is a wait that never ends.
\<close>

partial_function (option) wait_until_started :: "size_t \<Rightarrow> livestream \<Rightarrow> livestream option" where
  "wait_until_started wp s =
     (if m_started s then Some s
      else if m_worker s = None \<or> m_worker s = Some Exited then None
      else (case worker_step wp s of None \<Rightarrow> None | Some s' \<Rightarrow> wait_until_started wp s'))"

text \<open>\<^verbatim>\<open>m_worker.join()\<close>: the worker runs to its end; the handle is no longer joinable.\<close>

partial_function (option) join :: "size_t \<Rightarrow> livestream \<Rightarrow> livestream option" where
  "join wp s =
     (if m_worker s = None then Some s
      else if m_worker s = Some Exited then Some (s\<lparr> m_worker := None \<rparr>)
      else (case worker_step wp s of None \<Rightarrow> None | Some s' \<Rightarrow> join wp s'))"

section \<open>The control operations\<close>

text \<open>
  What the transport does during one call of \<^verbatim>\<open>start\<close> or \<^verbatim>\<open>seek\<close>: whether
  \<^verbatim>\<open>curl_easy_init\<close> gives a handle, the results of the successive
  \<^verbatim>\<open>curl_easy_setopt\<close> calls, the callbacks of the transfer the worker will run with its
  final result and error text, and how many steps the worker takes between the moment
  \<^verbatim>\<open>m_started\<close> becomes true and the moment the released caller reads
  \<^verbatim>\<open>m_curlresult\<close>.
\<close>

record transport =
  t_init_ok :: bool
  t_setopt :: "CURLcode list"
  t_callbacks :: "callback list"
  t_result :: CURLcode
  t_errtext :: string
  t_latency :: nat

definition setopt_chain :: "CURLcode list \<Rightarrow> CURLcode" where
  "setopt_chain rs = (case find (\<lambda>r. r \<noteq> CURLE_OK) rs of None \<Rightarrow> CURLE_OK | Some r \<Rightarrow> r)"

fun decimal :: "nat \<Rightarrow> string" where
  "decimal n = (if n < 10 then [char_of (48 + n)] else decimal (n div 10) @ [char_of (48 + n mod 10)])"

declare decimal.simps [simp del]

definition spawn :: "transport \<Rightarrow> livestream \<Rightarrow> livestream" where
  "spawn tr s = s\<lparr> m_worker := Some (Spawned (t_callbacks tr) (t_result tr) (t_errtext tr)) \<rparr>"

definition resume_after_started :: "size_t \<Rightarrow> transport \<Rightarrow> livestream \<Rightarrow> livestream option" where
  "resume_after_started wp tr s =
     (case wait_until_started wp s of None \<Rightarrow> None | Some s' \<Rightarrow> worker_steps wp (t_latency tr) s')"

definition seek :: "size_t \<Rightarrow> transport \<Rightarrow> uint64_t \<Rightarrow> livestream \<Rightarrow> ((exn + uint64_t) \<times> livestream) option" where
  "seek wp tr pos s =
     (if pos = m_readpos s then Some (Inr pos, s)
      else if m_worker s = None then
        Some (Inl (String_exception [Str ''seek'', Str '': cannot seek an inactive data transfer'']), s)
      else
        let minpos = (if (m_writepos s - m_startpos s) > m_buffersize s
                      then m_writepos s - m_buffersize s else m_startpos s)
        in if pos \<ge> minpos \<and> pos \<le> m_writepos s then
             let newtail =
                   (if minpos = m_startpos s then pos - m_startpos s
                    else
                      let tail = m_bufferhead s;
                          delta = pos - minpos
                      in if delta \<ge> (m_buffersize s - tail) then delta - (m_buffersize s - tail)
                         else tail + delta)
             in Some (Inr pos, s\<lparr> m_buffertail := newtail, m_readpos := pos \<rparr>)
           else
             (case join wp (s\<lparr> m_stop := True \<rparr>) of
                None \<Rightarrow> None
              | Some s1 \<Rightarrow>
                  (case reset_stream_state True s1 of
                     Inl e \<Rightarrow> Some (Inl e, s1)
                   | Inr s2 \<Rightarrow>
                       if setopt_chain (take 1 (t_setopt tr)) \<noteq> CURLE_OK then
                         Some (Inl (String_exception
                                 [Str ''seek'', Str '': curl_easy_setopt() failed; transfer stopped'']),
                               s2\<lparr> m_curl := None \<rparr>)
                       else
                         let byterange = decimal (unat pos) @ ''-'';
                             s3 = s2\<lparr> m_curl := map_option (\<lambda>h. h\<lparr> c_range := Some byterange \<rparr>) (m_curl s2) \<rparr>
                         in (case resume_after_started wp tr (spawn tr s3) of
                               None \<Rightarrow> None
                             | Some s4 \<Rightarrow>
                                 if m_curlresult s4 \<noteq> CURLE_OK then
                                   Some (Inl (String_exception
                                           [Str ''seek'', Str '': failed to restart transfer at position '',
                                            Num pos, Str '': '', Str (m_curlerr s4)]), s4)
                                 else Some (Inr (m_readpos s4), s4)))))"

definition start :: "size_t \<Rightarrow> transport \<Rightarrow> string option \<Rightarrow> livestream \<Rightarrow> ((exn + uint64_t) \<times> livestream) option" where
  "start wp tr url s =
     (case url of
        None \<Rightarrow> Some (Inl (Invalid_argument ''url''), s)
      | Some u \<Rightarrow>
          if m_worker s \<noteq> None then
            Some (Inl (String_exception [Str ''start'', Str '': data transfer is already active'']), s)
          else if \<not> t_init_ok tr then
            Some (Inl (String_exception [Str ''start'', Str '': curl_easy_init() failed'']),
                  s\<lparr> m_curl := None \<rparr>)
          else if setopt_chain (take 11 (t_setopt tr)) \<noteq> CURLE_OK then
            Some (Inl (String_exception [Str ''start'', Str '': curl_easy_setopt() failed'']),
                  s\<lparr> m_curl := None \<rparr>)
          else
            let s1 = s\<lparr> m_curl := Some \<lparr> c_url = u, c_range = None, c_paused = False \<rparr> \<rparr>
            in (case resume_after_started wp tr (spawn tr s1) of
                  None \<Rightarrow> None
                | Some s2 \<Rightarrow>
                    if m_curlresult s2 \<noteq> CURLE_OK then
                      Some (Inl (String_exception
                              [Str ''start'', Str '': failed to start transfer for url '', Str u,
                               Str '': '', Str (m_curlerr s2)]),
                            s2\<lparr> m_curl := None \<rparr>)
                    else Some (Inr (m_readpos s2), s2)))"

definition stop :: "size_t \<Rightarrow> livestream \<Rightarrow> ((exn + uint64_t) \<times> livestream) option" where
  "stop wp s =
     (if m_worker s = None then Some (Inr 0, s)
      else
        (case join wp (s\<lparr> m_stop := True \<rparr>) of
           None \<Rightarrow> None
         | Some s1 \<Rightarrow>
             let position = m_readpos s1
             in (case reset_stream_state True s1 of
                   Inl e \<Rightarrow> Some (Inl e, s1)
                 | Inr s2 \<Rightarrow> Some (Inr position, s2\<lparr> m_length := 0, m_curl := None \<rparr>))))"

section \<open>Notions used in the statements\<close>

text \<open>The minimum position held in the ring, as \<^verbatim>\<open>seek\<close> computes it.\<close>

definition seek_minpos :: "livestream \<Rightarrow> uint64_t" where
  "seek_minpos s = (if (m_writepos s - m_startpos s) > m_buffersize s
                      then m_writepos s - m_buffersize s else m_startpos s)"

text \<open>Sample values: a transport that delivers nothing, a freshly constructed instance with
  capacity 65536, and an instance of that capacity whose worker is inside the transfer.\<close>

definition quiet_transport :: transport where
  "quiet_transport = \<lparr> t_init_ok = True, t_setopt = [], t_callbacks = [], t_result = CURLE_OK,
                         t_errtext = [], t_latency = 0 \<rparr>"

definition fresh_instance :: livestream where
  "fresh_instance = \<lparr> m_buffersize = 65536, m_buffer = (\<lambda>_. 0),
                     m_bufferhead = 0, m_buffertail = 0,
                     m_startpos = 0, m_readpos = 0, m_writepos = 0, m_length = 0,
                     m_started = False, m_paused = False, m_stop = False,
                     m_curl = None, m_curlresult = CURLE_OK, m_curlerr = [],
                     m_worker = None \<rparr>"

definition running_instance :: "size_t \<Rightarrow> size_t \<Rightarrow> uint64_t \<Rightarrow> uint64_t \<Rightarrow> uint64_t \<Rightarrow> livestream" where
  "running_instance head tail startpos readpos writepos =
     \<lparr> m_buffersize = 65536, m_buffer = (\<lambda>_. 0),
       m_bufferhead = head, m_buffertail = tail,
       m_startpos = startpos, m_readpos = readpos, m_writepos = writepos, m_length = writepos,
       m_started = True, m_paused = False, m_stop = False,
       m_curl = Some \<lparr> c_url = ''http://tuner/auto/v5.1'', c_range = None, c_paused = False \<rparr>,
       m_curlresult = CURLE_OK, m_curlerr = [],
       m_worker = Some (Performing [] CURLE_OK []) \<rparr>"

text \<open>
  Storing a chunk into a ring of capacity \<open>C\<close> from index \<open>h\<close> on, split at the wrap:
  the bytes that fit before the end of the storage go to \<open>h\<close> onwards, the rest to index
  0 onwards. Reading \<open>n\<close> bytes from index \<open>t\<close> on, split in the same way.
\<close>

definition ring_put :: "(nat \<Rightarrow> uint8_t) \<Rightarrow> nat \<Rightarrow> nat \<Rightarrow> uint8_t list \<Rightarrow> (nat \<Rightarrow> uint8_t)" where
  "ring_put buf C h bytes = store_bytes (store_bytes buf h (take (C - h) bytes)) 0 (drop (C - h) bytes)"

definition ring_get :: "(nat \<Rightarrow> uint8_t) \<Rightarrow> nat \<Rightarrow> nat \<Rightarrow> nat \<Rightarrow> uint8_t list" where
  "ring_get buf C t n = load_bytes buf t (min n (C - t)) @ load_bytes buf 0 (n - (C - t))"

text \<open>The free space \<^verbatim>\<open>curl_write\<close> computes from the head and the tail.\<close>

definition write_available :: "livestream \<Rightarrow> size_t" where
  "write_available s =
     (if m_bufferhead s < m_buffertail s then m_buffertail s - m_bufferhead s
      else (m_buffersize s - m_bufferhead s) + m_buffertail s)"

text \<open>The number of bytes between the tail and the head, going round the ring.\<close>

definition buffered :: "livestream \<Rightarrow> nat" where
  "buffered s =
     (if m_buffertail s < m_bufferhead s then unat (m_bufferhead s) - unat (m_buffertail s)
      else unat (m_buffersize s) - unat (m_buffertail s) + unat (m_bufferhead s))"

text \<open>
  A callback produces data when it is a write that stores its bytes, which advances
  \<^verbatim>\<open>writepos\<close>; a transfer produces data when one of its callbacks does, each run in the
  state its predecessors leave.
\<close>

definition produces_data :: "size_t \<Rightarrow> callback \<Rightarrow> livestream \<Rightarrow> bool" where
  "produces_data wp cb s =
     (case cb of
        Write data sz count \<Rightarrow>
          (case curl_write wp data sz count s of
             None \<Rightarrow> False
           | Some (r, s') \<Rightarrow> m_writepos s' \<noteq> m_writepos s)
      | _ \<Rightarrow> False)"

fun data_produced :: "size_t \<Rightarrow> callback list \<Rightarrow> livestream \<Rightarrow> bool" where
  "data_produced wp [] s = False"
| "data_produced wp (cb # cbs) s =
     (produces_data wp cb s \<or>
      (case callback_step wp cb s of None \<Rightarrow> False | Some s' \<Rightarrow> data_produced wp cbs s'))"

text \<open>
  The callbacks of a transfer that are still to run when the first one that produces data
  has returned (none when no callback produces data): what the worker has left to do at
  the moment the caller of \<^verbatim>\<open>start\<close> is released by a write.
\<close>

fun rest_after_data :: "size_t \<Rightarrow> callback list \<Rightarrow> livestream \<Rightarrow> callback list" where
  "rest_after_data wp [] s = []"
| "rest_after_data wp (cb # cbs) s =
     (if produces_data wp cb s then cbs
      else (case callback_step wp cb s of None \<Rightarrow> [] | Some s' \<Rightarrow> rest_after_data wp cbs s'))"

text \<open>The number of steps the worker thread still has to take.\<close>

definition worker_todo :: "livestream \<Rightarrow> nat" where
  "worker_todo s =
     (case m_worker s of
        Some (Spawned cbs r e) \<Rightarrow> length cbs + 2
      | Some (Performing cbs r e) \<Rightarrow> length cbs + 1
      | _ \<Rightarrow> 0)"

text \<open>
  One step of the system other than \<^verbatim>\<open>stop\<close>: a step of the worker thread, or a
  completed call of \<^verbatim>\<open>read\<close>, \<^verbatim>\<open>seek\<close> or \<^verbatim>\<open>start\<close>, whatever it returns or raises.
  (\<^verbatim>\<open>position\<close> and \<^verbatim>\<open>length\<close> do not change the state.)
\<close>

inductive step :: "size_t \<Rightarrow> livestream \<Rightarrow> livestream \<Rightarrow> bool" for wp :: size_t where
  step_worker: "worker_step wp s = Some s' \<Longrightarrow> step wp s s'"
| step_read: "read buffer count timeoutms s = Inr (n, dest, s') \<Longrightarrow> step wp s s'"
| step_seek: "seek wp tr pos s = Some (r, s') \<Longrightarrow> step wp s s'"
| step_start: "start wp tr url s = Some (r, s') \<Longrightarrow> step wp s s'"

text \<open>The callbacks that deliver a header line.\<close>

definition is_header :: "callback \<Rightarrow> bool" where
  "is_header cb = (case cb of Header data sz count \<Rightarrow> True | _ \<Rightarrow> False)"

text \<open>
  The invariant behind the position that \<^verbatim>\<open>start\<close> returns for a transfer whose
  only header callback comes first and carries a range start \<open>v\<close>: until that callback
  has run the caller is not released; from then on \<^verbatim>\<open>readpos\<close> and \<^verbatim>\<open>startpos\<close>
  are \<open>v\<close>.
\<close>

definition range_reported :: "callback \<Rightarrow> uint64_t \<Rightarrow> livestream \<Rightarrow> bool" where
  "range_reported h v a =
     (case m_worker a of
        Some (Spawned cs r e) \<Rightarrow>
          \<not> m_started a \<and> cs \<noteq> [] \<and> hd cs = h \<and> list_all (\<lambda>cb. \<not> is_header cb) (tl cs)
      | Some (Performing cs r e) \<Rightarrow>
          (\<not> m_started a \<and> cs \<noteq> [] \<and> hd cs = h \<and> list_all (\<lambda>cb. \<not> is_header cb) (tl cs)) \<or>
          (list_all (\<lambda>cb. \<not> is_header cb) cs \<and> m_readpos a = v \<and> m_startpos a = v)
      | Some Exited \<Rightarrow> m_readpos a = v \<and> m_startpos a = v
      | None \<Rightarrow> False)"

text \<open>
  Sample transfers: one that cannot connect; one that delivers four bytes and then loses
  the connection, with the given delay before the caller of \<^verbatim>\<open>start\<close> reads the result;
  and one that answers a range request from offset 1000 and delivers four bytes.
\<close>

definition refused_transfer :: transport where
  "refused_transfer = \<lparr> t_init_ok = True, t_setopt = [], t_callbacks = [], t_result = 7,
                          t_errtext = ''Failed to connect to tuner port 80: Connection refused'',
                          t_latency = 0 \<rparr>"

definition cut_transfer :: "nat \<Rightarrow> transport" where
  "cut_transfer delay = \<lparr> t_init_ok = True, t_setopt = [],
                           t_callbacks = [Write (Some [1, 2, 3, 4]) 1 4], t_result = 56,
                           t_errtext = ''Recv failure: Connection reset by peer'',
                           t_latency = delay \<rparr>"

definition ranged_transfer :: transport where
  "ranged_transfer = \<lparr> t_init_ok = True, t_setopt = [],
                         t_callbacks = [Header (''Content-Range: bytes 1000-1999/2000'' @ [CHR 0x0D, CHR 0x0A]) 1 37,
                                        Write (Some [1, 2, 3, 4]) 1 4],
                         t_result = CURLE_OK, t_errtext = [], t_latency = 0 \<rparr>"

text \<open>
  A header line that carries a range start, said in words: the exact prefix
  \<^verbatim>\<open>Content-Range:\<close>, any white space, \<^verbatim>\<open>bytes\<close>, any white space, an optional sign
  and a non-empty run of decimal digits that ends at the end of the text or before a
  character that is not a digit. Its value is that of \<^verbatim>\<open>strtoull\<close>.
\<close>

definition llu_value :: "bool \<Rightarrow> nat \<Rightarrow> uint64_t" where
  "llu_value neg n = (if n \<ge> 2 ^ 64 then - 1 else if neg then - of_nat n else of_nat n)"

definition content_range_line :: "string \<Rightarrow> uint64_t \<Rightarrow> bool" where
  "content_range_line line v =
     (\<exists>ws1 ws2 sgn ds rest.
        line = ''Content-Range:'' @ ws1 @ ''bytes'' @ ws2 @ sgn @ ds @ rest \<and>
        list_all isspace ws1 \<and> list_all isspace ws2 \<and>
        (sgn = [] \<or> sgn = ''+'' \<or> sgn = ''-'') \<and>
        ds \<noteq> [] \<and> list_all isdigit ds \<and> (rest = [] \<or> \<not> isdigit (hd rest)) \<and>
        v = llu_value (sgn = ''-'') (decimal_val ds))"

text \<open>
  A run that breaks the ring's invariant. The server delivers two chunks of 32768 bytes,
  half the capacity of a fresh instance each. \<^verbatim>\<open>start\<close> returns after the first; the
  consumer seeks to position 32768, the end of what is buffered; the worker delivers the
  second chunk. \<open>after_two_halves\<close> is the state then.
\<close>

definition chunk_of :: "nat \<Rightarrow> uint8_t \<Rightarrow> uint8_t list" where
  "chunk_of n b = replicate n b"

definition two_halves :: transport where
  "two_halves = \<lparr> t_init_ok = True, t_setopt = [],
                    t_callbacks = [Write (Some (chunk_of 32768 1)) 1 32768,
                                   Write (Some (chunk_of 32768 2)) 1 32768],
                    t_result = CURLE_OK, t_errtext = [], t_latency = 0 \<rparr>"

definition after_two_halves :: "size_t \<Rightarrow> livestream option" where
  "after_two_halves wp =
     (case start wp two_halves (Some ''http://tuner/auto/v5.1'') fresh_instance of
        Some (Inr p, s1) \<Rightarrow>
          (case seek wp quiet_transport 32768 s1 of
             Some (Inr q, s2) \<Rightarrow> worker_step wp s2
           | _ \<Rightarrow> None)
      | _ \<Rightarrow> None)"

definition two_halves_state :: livestream where
  "two_halves_state =
     \<lparr> m_buffersize = 65536,
       m_buffer = ring_put (ring_put (\<lambda>_. 0) 65536 0 (chunk_of 32768 1)) 65536 32768 (chunk_of 32768 2),
       m_bufferhead = 0, m_buffertail = 32768,
       m_startpos = 0, m_readpos = 32768, m_writepos = 65536, m_length = 65536,
       m_started = True, m_paused = False, m_stop = False,
       m_curl = Some \<lparr> c_url = ''http://tuner/auto/v5.1'', c_range = None, c_paused = False \<rparr>,
       m_curlresult = CURLE_OK, m_curlerr = [],
       m_worker = Some (Performing [] CURLE_OK []) \<rparr>"


text \<open>
  The states reached from an empty ring by write callbacks, reads and progress callbacks
  alone, and the number of unread bytes the two indices stand for.
\<close>

definition unread :: "livestream \<Rightarrow> nat" where
  "unread s = (unat (m_bufferhead s) + unat (m_buffersize s) - unat (m_buffertail s)) mod unat (m_buffersize s)"

definition ring_inv :: "size_t \<Rightarrow> livestream \<Rightarrow> bool" where
  "ring_inv wp s =
     (m_bufferhead s < m_buffersize s \<and> m_buffertail s < m_buffersize s \<and>
      unat (m_writepos s - m_readpos s) = unread s \<and>
      (unread s = 0 \<or> unread s + unat wp \<le> unat (m_buffersize s)))"

inductive rw_reach :: "size_t \<Rightarrow> livestream \<Rightarrow> bool" for wp :: size_t where
  rw_init: "m_bufferhead s = 0 \<Longrightarrow> m_buffertail s = 0 \<Longrightarrow> m_writepos s = m_readpos s \<Longrightarrow>
            0 < m_buffersize s \<Longrightarrow> rw_reach wp s"
| rw_write: "rw_reach wp s \<Longrightarrow> curl_write wp (Some bytes) sz n s = Some (r, s') \<Longrightarrow>
             length bytes = unat (sz * n) \<Longrightarrow> unat (sz * n) + unat wp < 2 ^ 64 \<Longrightarrow> rw_reach wp s'"
| rw_read: "rw_reach wp s \<Longrightarrow> read buffer count timeoutms s = Inr (k, dest, s') \<Longrightarrow> rw_reach wp s'"
| rw_tick: "rw_reach wp s \<Longrightarrow> rw_reach wp (snd (curl_transfercontrol s))"

section \<open>The capacity\<close>

lemma align_up_unat:
  fixes v :: size_t and a :: "32 word"
  assumes a: "\<not> a < 1" and nov: "unat v + unat a \<le> 2 ^ 64"
  shows "align_up v a = Inr (of_nat (unat v + (unat a - unat v mod unat a) mod unat a))"
    and "unat v + (unat a - unat v mod unat a) mod unat a < 2 ^ 64"
proof -
  let ?A = "unat a" and ?V = "unat v"
  let ?ua = "ucast a :: size_t"
  have A0: "0 < ?A" using a by (simp add: word_less_nat_alt not_less unat_gt_0) 
  have ua: "unat ?ua = ?A" by (simp add: unsigned_ucast_eq take_bit_nat_eq_self unsigned_less[THEN less_trans])
  have m: "unat (v mod ?ua) = ?V mod ?A" by (simp add: unat_mod_distrib ua)
  have mlt: "?V mod ?A < ?A" using A0 by simp
  have le: "v mod ?ua \<le> ?ua" by (simp add: word_le_nat_alt m ua less_imp_le[OF mlt])
  have s: "unat (?ua - v mod ?ua) = ?A - ?V mod ?A"
    using le by (simp add: unat_sub m ua)
  have p: "unat ((?ua - v mod ?ua) mod ?ua) = (?A - ?V mod ?A) mod ?A"
    by (simp add: unat_mod_distrib s ua)
  have plt: "(?A - ?V mod ?A) mod ?A < ?A" using A0 by simp
  show b: "?V + (?A - ?V mod ?A) mod ?A < 2 ^ 64" using plt nov by linarith
  have "unat (v + (?ua - v mod ?ua) mod ?ua) = ?V + (?A - ?V mod ?A) mod ?A"
    using b by (simp add: unat_add_lem[THEN iffD1] p)
  then have "v + (?ua - v mod ?ua) mod ?ua = of_nat (?V + (?A - ?V mod ?A) mod ?A)"
    by (metis word_arith_nat_add p)
  moreover have "v = 0 \<Longrightarrow> (0::size_t) = of_nat (?V + (?A - ?V mod ?A) mod ?A)"
    by simp
  ultimately show "align_up v a = Inr (of_nat (?V + (?A - ?V mod ?A) mod ?A))"
    using a by (auto simp: align_up_def)
qed

lemma round_up_nat:
  fixes A V :: nat
  assumes "0 < A"
  defines "R \<equiv> V + (A - V mod A) mod A"
  shows "A dvd R" and "V \<le> R" and "R < V + A" and "\<And>m. A dvd m \<Longrightarrow> V \<le> m \<Longrightarrow> R \<le> m"
proof -
  show d: "A dvd R"
  proof (cases "V mod A = 0")
    case True then show ?thesis by (simp add: R_def dvd_eq_mod_eq_0)
  next
    case False
    then have "(A - V mod A) mod A = A - V mod A" using assms by simp
    moreover have "V mod A < A" using assms by simp
    ultimately have "R = (V div A) * A + A"
      unfolding R_def using div_mult_mod_eq[of V A] by linarith
    then show ?thesis by simp
  qed
  show "V \<le> R" by (simp add: R_def)
  show lt: "R < V + A" using assms by (simp add: R_def)
  fix m assume m: "A dvd m" "V \<le> m"
  show "R \<le> m"
  proof (rule ccontr)
    assume "\<not> R \<le> m"
    then have "m < R" by simp
    from d m(1) have "A dvd R - m" by (rule dvd_diff_nat)
    moreover have "0 < R - m" using \<open>m < R\<close> by simp
    ultimately have "A \<le> R - m" by (rule dvd_imp_le)
    with lt m(2) \<open>m < R\<close> show False by linarith
  qed
qed

lemma ctor_capacity_wraps:
  "livestream_ctor wp True storage (- wp) = Inr s \<Longrightarrow> m_buffersize s = 0"
  by (auto simp: livestream_ctor_def align_up_def)

text \<open>
  C9 (as amended). The constructed capacity is always
  \<^verbatim>\<open>align_up(requested + WRITE_PADDING, 65536)\<close>, computed in 64-bit arithmetic.
  \<^verbatim>\<open>align_up\<close> raises out-of-range for an alignment below 1. Otherwise, when the value
  plus the alignment does not exceed \<open>2^64\<close>, it returns the smallest multiple of the
  alignment that is at least the value. When the requested size plus \<^verbatim>\<open>WRITE_PADDING\<close>
  plus 65536 does not exceed \<open>2^64\<close>, and the requested size is not 0 or
  \<^verbatim>\<open>WRITE_PADDING\<close> is not a multiple of 65536, the capacity is a positive multiple of
  65536 and greater than \<^verbatim>\<open>WRITE_PADDING\<close>.
\<close>

theorem capacity_aligned:
  "(alignment < 1 \<longrightarrow> align_up v alignment = Inl (Out_of_range ''alignment'')) \<and>
   (\<not> alignment < 1 \<and> unat v + unat alignment \<le> 2 ^ 64 \<longrightarrow>
      (\<exists>r. align_up v alignment = Inr r \<and> unat alignment dvd unat r \<and> unat v \<le> unat r \<and>
           (\<forall>m. unat alignment dvd m \<and> unat v \<le> m \<longrightarrow> unat r \<le> m))) \<and>
   (unat buffersize + unat wp + 65536 \<le> 2 ^ 64 \<and> (buffersize \<noteq> 0 \<or> \<not> 65536 dvd unat wp) \<longrightarrow>
      (\<exists>s. livestream_ctor wp True storage buffersize = Inr s \<and>
           align_up (buffersize + wp) 65536 = Inr (m_buffersize s) \<and>
           65536 dvd unat (m_buffersize s) \<and> 0 < m_buffersize s \<and> wp < m_buffersize s)) \<and>
   (\<forall>s. livestream_ctor wp alloc_ok storage buffersize = Inr s \<longrightarrow>
        align_up (buffersize + wp) 65536 = Inr (m_buffersize s))"
proof (intro conjI impI allI)
  assume "alignment < 1"
  then show "align_up v alignment = Inl (Out_of_range ''alignment'')"
    by (simp add: align_up_def)
next
  assume h: "\<not> alignment < 1 \<and> unat v + unat alignment \<le> 2 ^ 64"
  let ?R = "unat v + (unat alignment - unat v mod unat alignment) mod unat alignment"
  have A0: "0 < unat alignment" using h by (simp add: word_less_nat_alt not_less unat_gt_0)
  have eq: "align_up v alignment = Inr (of_nat ?R)" and lt: "?R < 2 ^ 64"
    using align_up_unat[of alignment v] h by simp_all
  have u: "unat (of_nat ?R :: size_t) = ?R"
    by (rule of_nat_inverse[OF refl]) (use lt in simp)
  show "\<exists>r. align_up v alignment = Inr r \<and> unat alignment dvd unat r \<and> unat v \<le> unat r \<and>
           (\<forall>m. unat alignment dvd m \<and> unat v \<le> m \<longrightarrow> unat r \<le> m)"
  proof (intro exI[of _ "of_nat ?R"] conjI allI impI)
    show "align_up v alignment = Inr (of_nat ?R)" by (fact eq)
    show "unat alignment dvd unat (of_nat ?R :: size_t)"
      unfolding u by (rule round_up_nat(1)[OF A0])
    show "unat v \<le> unat (of_nat ?R :: size_t)"
      unfolding u by (rule round_up_nat(2)[OF A0])
    fix m assume "unat alignment dvd m \<and> unat v \<le> m"
    then show "unat (of_nat ?R :: size_t) \<le> m"
      unfolding u using round_up_nat(4)[OF A0, of m "unat v"] by blast
  qed
next
  assume h: "unat buffersize + unat wp + 65536 \<le> 2 ^ 64 \<and> (buffersize \<noteq> 0 \<or> \<not> 65536 dvd unat wp)"
  let ?v = "buffersize + wp"
  let ?a = "65536 :: 32 word"
  let ?R = "unat ?v + (65536 - unat ?v mod 65536) mod 65536"
  have v: "unat ?v = unat buffersize + unat wp"
    using h by (simp add: unat_add_lem[THEN iffD1])
  have eq: "align_up ?v ?a = Inr (of_nat ?R)" and lt: "?R < 2 ^ 64"
    using align_up_unat[of ?a ?v] h v by simp_all
  have u: "unat (of_nat ?R :: size_t) = ?R"
    by (rule of_nat_inverse[OF refl]) (use lt in simp)
  have d: "65536 dvd ?R" and ge: "unat ?v \<le> ?R"
    using round_up_nat(1,2)[of 65536 "unat ?v"] by simp_all
  have pos: "0 < ?R \<and> unat wp < ?R"
  proof (cases "buffersize = 0")
    case True
    with h have nd: "\<not> 65536 dvd unat wp" by simp
    then have "unat wp \<noteq> ?R" using d by metis
    moreover have "unat wp \<noteq> 0" using nd by (metis dvd_0_right)
    ultimately show ?thesis using ge v by linarith
  next
    case False
    then have "0 < unat buffersize" by (simp add: unat_gt_0)
    then show ?thesis using ge v by linarith
  qed
  let ?s = "\<lparr> m_buffersize = of_nat ?R, m_buffer = storage,
                     m_bufferhead = 0, m_buffertail = 0,
                     m_startpos = 0, m_readpos = 0, m_writepos = 0, m_length = 0,
                     m_started = False, m_paused = False, m_stop = False,
                     m_curl = None, m_curlresult = CURLE_OK, m_curlerr = [],
                     m_worker = None \<rparr>"
  have c: "livestream_ctor wp True storage buffersize = Inr ?s"
    by (simp add: livestream_ctor_def eq)
  have "0 < (of_nat ?R :: size_t)" "wp < (of_nat ?R :: size_t)"
    using pos u by (simp_all add: word_less_nat_alt)
  with c eq d u
  show "\<exists>s. livestream_ctor wp True storage buffersize = Inr s \<and>
           align_up (buffersize + wp) 65536 = Inr (m_buffersize s) \<and>
           65536 dvd unat (m_buffersize s) \<and> 0 < m_buffersize s \<and> wp < m_buffersize s"
    by (intro exI[of _ ?s]) simp
next
  fix s
  assume "livestream_ctor wp alloc_ok storage buffersize = Inr s"
  then show "align_up (buffersize + wp) 65536 = Inr (m_buffersize s)"
    by (auto simp: livestream_ctor_def split: sum.splits if_splits)
qed

theorem capacity_aligned_witness:
  "align_up 5 0 = Inl (Out_of_range ''alignment'') \<and>
   (\<exists>r. align_up 100016 65536 = Inr r \<and> 65536 dvd unat r \<and> 100016 \<le> unat r \<and>
        (\<forall>m. 65536 dvd m \<and> 100016 \<le> m \<longrightarrow> unat r \<le> m)) \<and>
   (\<exists>s. livestream_ctor 16 True (\<lambda>_. 0) 100000 = Inr s \<and>
        align_up (100000 + 16) 65536 = Inr (m_buffersize s) \<and>
        65536 dvd unat (m_buffersize s) \<and> 0 < m_buffersize s \<and> 16 < m_buffersize s)"
  using capacity_aligned[where alignment = 0 and v = 5]
        capacity_aligned[where alignment = 65536 and v = 100016 and buffersize = 100000
                           and wp = 16 and storage = "\<lambda>_. 0"]
  by simp

theorem align_up_wraps_counterexample:
  "align_up 18446744073709551615 65536 = Inr 0 \<and> \<not> (18446744073709551615 :: size_t) \<le> 0"
  by (simp add: align_up_def)

section \<open>Seeking\<close>

lemma minpos_is_startpos_iff:
  fixes w st c :: uint64_t
  shows "((if w - st > c then w - c else st) = st) = (w - st \<le> c)"
proof (cases "w - st > c")
  case True
  have "w - c \<noteq> st"
  proof
    assume "w - c = st"
    then have "w - st = c" by (simp add: algebra_simps)
    with True show False by simp
  qed
  with True show ?thesis by (auto simp: not_le)
next
  case False
  then show ?thesis by (auto simp: not_less)
qed

lemma seek_restart_eq:
  assumes "target \<noteq> m_readpos s" "m_worker s \<noteq> None"
      and "\<not> (target \<ge> seek_minpos s \<and> target \<le> m_writepos s)"
  shows "seek wp tr target s =
    (case join wp (s\<lparr> m_stop := True \<rparr>) of
                None \<Rightarrow> None
              | Some s1 \<Rightarrow>
                  (case reset_stream_state True s1 of
                     Inl e \<Rightarrow> Some (Inl e, s1)
                   | Inr s2 \<Rightarrow>
                       if setopt_chain (take 1 (t_setopt tr)) \<noteq> CURLE_OK then
                         Some (Inl (String_exception
                                 [Str ''seek'', Str '': curl_easy_setopt() failed; transfer stopped'']),
                               s2\<lparr> m_curl := None \<rparr>)
                       else
                         (case resume_after_started wp tr (spawn tr
                                 (s2\<lparr> m_curl := map_option (\<lambda>h. h\<lparr> c_range := Some (decimal (unat target) @ ''-'') \<rparr>) (m_curl s2) \<rparr>)) of
                               None \<Rightarrow> None
                             | Some s4 \<Rightarrow>
                                 if m_curlresult s4 \<noteq> CURLE_OK then
                                   Some (Inl (String_exception
                                           [Str ''seek'', Str '': failed to restart transfer at position '',
                                            Num target, Str '': '', Str (m_curlerr s4)]), s4)
                                 else Some (Inr (m_readpos s4), s4))))"
  using assms unfolding seek_def seek_minpos_def Let_def
  by (simp only: if_False if_True simp_thms)

lemma seek_buffered_returns:
  assumes "target \<noteq> m_readpos s" "m_worker s \<noteq> None"
      and "target \<ge> seek_minpos s \<and> target \<le> m_writepos s"
  shows "\<exists>s'. seek wp tr target s = Some (Inr target, s')"
  using assms unfolding seek_def seek_minpos_def Let_def
  by (simp only: if_False if_True simp_thms) blast

lemma seek_not_running_only:
  assumes "seek wp tr target s =
             Some (Inl (String_exception [Str ''seek'', Str '': cannot seek an inactive data transfer'']), s')"
  shows "target \<noteq> m_readpos s \<and> m_worker s = None"
proof (rule ccontr)
  let ?e = "String_exception [Str ''seek'', Str '': cannot seek an inactive data transfer'']"
  assume n: "\<not> (target \<noteq> m_readpos s \<and> m_worker s = None)"
  show False
  proof (cases "target = m_readpos s")
    case True
    with assms show False by (simp add: seek_def)
  next
    case False
    with n have w: "m_worker s \<noteq> None" by simp
    show False
    proof (cases "target \<ge> seek_minpos s \<and> target \<le> m_writepos s")
      case True
      from seek_buffered_returns[OF False w True, of wp tr] assms show False by auto
    next
      case nr: False
      have r: "reset_stream_state True t \<noteq> Inl ?e" for t
        by (simp add: reset_stream_state_def)
      from assms r show False
        unfolding seek_restart_eq[OF False w nr]
        by (simp split: option.splits sum.splits if_splits)
    qed
  qed
qed

text \<open>
  C10. \<^verbatim>\<open>seek\<close> compares the target with \<^verbatim>\<open>readpos\<close> before it looks at the worker: a
  seek to the current \<^verbatim>\<open>readpos\<close> returns the target and changes nothing, also without a
  worker; without a worker, a seek to any other target raises the not-running exception;
  and whenever that exception is raised, the target differs from \<^verbatim>\<open>readpos\<close>.
\<close>

theorem seek_same_position_first:
  "(target = m_readpos s \<longrightarrow> seek wp tr target s = Some (Inr target, s)) \<and>
   (target \<noteq> m_readpos s \<and> m_worker s = None \<longrightarrow>
      seek wp tr target s =
        Some (Inl (String_exception [Str ''seek'', Str '': cannot seek an inactive data transfer'']), s)) \<and>
   (\<forall>s'. seek wp tr target s =
           Some (Inl (String_exception [Str ''seek'', Str '': cannot seek an inactive data transfer'']), s')
         \<longrightarrow> target \<noteq> m_readpos s)"
proof (intro conjI impI allI)
  assume "target = m_readpos s"
  then show "seek wp tr target s = Some (Inr target, s)" by (simp add: seek_def)
next
  assume "target \<noteq> m_readpos s \<and> m_worker s = None"
  then show "seek wp tr target s =
        Some (Inl (String_exception [Str ''seek'', Str '': cannot seek an inactive data transfer'']), s)"
    by (simp add: seek_def)
next
  fix s'
  assume "seek wp tr target s =
           Some (Inl (String_exception [Str ''seek'', Str '': cannot seek an inactive data transfer'']), s')"
  then show "target \<noteq> m_readpos s" by (rule seek_not_running_only[THEN conjunct1])
qed


theorem seek_same_position_first_witness:
  "seek 16 quiet_transport 0 fresh_instance = Some (Inr 0, fresh_instance) \<and>
   seek 16 quiet_transport 5 fresh_instance =
     Some (Inl (String_exception [Str ''seek'', Str '': cannot seek an inactive data transfer'']),
           fresh_instance) \<and>
   5 \<noteq> m_readpos fresh_instance"
  using seek_same_position_first[of 0 fresh_instance 16 quiet_transport]
        seek_same_position_first[of 5 fresh_instance 16 quiet_transport]
  by (simp add: fresh_instance_def)

text \<open>
  C2. A seek with an active worker to a target other than \<^verbatim>\<open>readpos\<close> that lies between
  the minimum buffered position and \<^verbatim>\<open>writepos\<close> returns the target and changes only
  the tail and \<^verbatim>\<open>readpos\<close>: the worker, the stop flag and the transport session are as
  before. The new tail is \<^verbatim>\<open>target - startpos\<close> when \<^verbatim>\<open>writepos - startpos <= C\<close>; otherwise,
  with \<open>delta = target - min_buffered\<close>, it is \<open>delta - (C - head)\<close> when
  \<open>delta >= C - head\<close> and \<open>head + delta\<close> otherwise.
\<close>

theorem seek_in_buffer:
  assumes "m_worker s \<noteq> None"
      and "target \<noteq> m_readpos s"
      and "min_buffered = (if m_writepos s - m_startpos s > m_buffersize s
                           then m_writepos s - m_buffersize s else m_startpos s)"
      and "min_buffered \<le> target" and "target \<le> m_writepos s"
      and "delta = target - min_buffered"
  shows "seek wp tr target s =
           Some (Inr target,
                 s\<lparr> m_buffertail :=
                      (if m_writepos s - m_startpos s \<le> m_buffersize s then target - m_startpos s
                       else if delta \<ge> m_buffersize s - m_bufferhead s
                            then delta - (m_buffersize s - m_bufferhead s)
                            else m_bufferhead s + delta),
                    m_readpos := target \<rparr>)"
proof -
  have "(min_buffered = m_startpos s) = (m_writepos s - m_startpos s \<le> m_buffersize s)"
    unfolding assms(3) by (rule minpos_is_startpos_iff)
  then show ?thesis
    using assms by (simp add: seek_def Let_def)
qed

theorem seek_in_buffer_witness:
  "seek 16 quiet_transport 200 (running_instance 50000 300 0 300 50000) =
     Some (Inr 200, (running_instance 50000 300 0 300 50000)\<lparr> m_buffertail := 200, m_readpos := 200 \<rparr>) \<and>
   seek 16 quiet_transport 5000 (running_instance 4464 4464 0 70000 70000) =
     Some (Inr 5000, (running_instance 4464 4464 0 70000 70000)\<lparr> m_buffertail := 5000, m_readpos := 5000 \<rparr>) \<and>
   seek 16 quiet_transport 69000 (running_instance 4464 4464 0 70000 70000) =
     Some (Inr 69000, (running_instance 4464 4464 0 70000 70000)\<lparr> m_buffertail := 3464, m_readpos := 69000 \<rparr>)"
  using seek_in_buffer[of "running_instance 50000 300 0 300 50000" 200 0 200 16 quiet_transport]
        seek_in_buffer[of "running_instance 4464 4464 0 70000 70000" 5000 4464 536 16 quiet_transport]
        seek_in_buffer[of "running_instance 4464 4464 0 70000 70000" 69000 4464 64536 16 quiet_transport]
  by (simp add: running_instance_def)

section \<open>The write callback\<close>

lemma ring_put_nth:
  assumes "h < C" "length bytes \<le> C" "k < length bytes"
  shows "ring_put buf C h bytes ((h + k) mod C) = bytes ! k"
proof (cases "k < C - h")
  case True
  then have "(h + k) mod C = h + k" by simp
  moreover have "\<not> h + k < length bytes - (C - h)" using assms by linarith
  ultimately show ?thesis using True assms
    by (simp add: ring_put_def store_bytes_def)
next
  case False
  then have "C \<le> h + k" "h + k - C < C" using assms by linarith+
  then have m: "(h + k) mod C = h + k - C"
    by (simp add: le_mod_geq)
  have "h + k - C < length bytes - (C - h)" using False assms by linarith
  moreover have "C - h + (h + k - C) = k" using False assms by linarith
  ultimately show ?thesis using assms
    by (simp add: ring_put_def store_bytes_def m)
qed

lemma ring_put_other:
  assumes "h < C" "length bytes \<le> C" "\<forall>k<length bytes. i \<noteq> (h + k) mod C"
  shows "ring_put buf C h bytes i = buf i"
proof -
  have a: "\<not> i < length bytes - (C - h)"
  proof
    assume l: "i < length bytes - (C - h)"
    then have "C - h + i < length bytes" by linarith
    moreover have "(h + (C - h + i)) mod C = i"
    proof -
      have "h + (C - h + i) = i + C" using assms(1) by linarith
      moreover have "i < C" using l assms by linarith
      ultimately show ?thesis by simp
    qed
    ultimately show False using assms(3) by metis
  qed
  have b: "\<not> (h \<le> i \<and> i < h + min (length bytes) (C - h))"
  proof
    assume l: "h \<le> i \<and> i < h + min (length bytes) (C - h)"
    then have "i - h < length bytes" "i < C" by auto
    moreover have "(h + (i - h)) mod C = i" using l \<open>i < C\<close> by simp
    ultimately show False using assms(3) by metis
  qed
  from a b show ?thesis by (auto simp add: ring_put_def store_bytes_def)
qed

lemma unat_bound64: "unat (x :: size_t) < 18446744073709551616"
  using unsigned_less[of x, where ?'a = nat] by simp

lemma write_loop_done:
  "write_loop C t d buf h bw 0 = Some (buf, h, bw)"
  by (subst write_loop.simps) simp

lemma write_loop_step:
  assumes "cb \<noteq> 0"
  shows "write_loop C t d buf h bw cb =
           (let chunk = (if h < t then min cb (t - h) else min cb (C - h));
                h' = h + chunk
            in write_loop C t d (store_bytes buf (unat h) (take (unat chunk) (drop (unat bw) d)))
                 (if h' \<ge> C then 0 else h') (bw + chunk) (cb - chunk))"
  using assms by (subst write_loop.simps) (simp add: Let_def)

lemma write_loop_single:
  fixes C t h n :: size_t
  assumes "n \<noteq> 0"
      and "(if h < t then min n (t - h) else min n (C - h)) = n"
      and "unat h + unat n \<le> unat C"
  shows "write_loop C t d buf h bw n =
           Some (store_bytes buf (unat h) (take (unat n) (drop (unat bw) d)),
                 of_nat ((unat h + unat n) mod unat C), bw + n)"
proof -
  have hn: "unat (h + n) = unat h + unat n"
    by (rule unat_add_lem[THEN iffD1]) (use assms(3) unat_bound64[of C] in simp)
  have hd: "(if h + n \<ge> C then 0 else h + n) = (of_nat ((unat h + unat n) mod unat C) :: size_t)"
  proof (cases "h + n \<ge> C")
    case True
    then have "unat h + unat n = unat C" using assms(3) by (simp add: word_le_nat_alt hn)
    with True show ?thesis by simp
  next
    case False
    then have "unat h + unat n < unat C" by (simp add: word_le_nat_alt hn)
    with False show ?thesis by (simp flip: hn)
  qed
  show ?thesis
    unfolding write_loop_step[OF assms(1)] Let_def assms(2)
    by (simp add: write_loop_done hd)
qed

lemma write_loop_split:
  fixes C t h n :: size_t
  assumes "length bytes = unat n"
      and "t \<le> h" and "h < C"
      and "unat C - unat h < unat n"
      and "unat n \<le> unat C - unat h + unat t"
  shows "write_loop C t bytes buf h 0 n =
           Some (ring_put buf (unat C) (unat h) bytes, of_nat ((unat h + unat n) mod unat C), n)"
proof -
  let ?H = "unat h" and ?T = "unat t" and ?C = "unat C" and ?N = "unat n"
  have HT: "?T \<le> ?H" "?H < ?C"
    using assms(2,3) by (simp_all add: word_le_nat_alt word_less_nat_alt)
  have ch: "unat (C - h) = ?C - ?H"
    using assms(3) by (simp add: unat_sub less_imp_le)
  have lt: "C - h < n" by (simp add: word_less_nat_alt ch assms(4))
  have n0: "n \<noteq> 0" using assms(4) by (auto simp: unat_eq_zero)
  have nht: "\<not> h < t" using assms(2) by (simp add: not_less)
  have c1: "(if h < t then min n (t - h) else min n (C - h)) = C - h"
    using lt nht by (auto simp: min_def)
  let ?n' = "n - (C - h)"
  have n': "unat ?n' = ?N - (?C - ?H)"
    using lt by (simp add: unat_sub less_imp_le ch)
  have n'0: "?n' \<noteq> 0" using n' assms(4) by (auto simp: unat_eq_zero)
  have n't: "?n' \<le> t" using n' assms(5) by (simp add: word_le_nat_alt)
  have t0: "0 < t" using n't n'0 by (metis word_gt_0 word_le_0_iff)
  have c2: "(if 0 < t then min ?n' (t - 0) else min ?n' (C - 0)) = ?n'"
    using t0 n't by (auto simp: min_def)
  have b2: "unat (0::size_t) + unat ?n' \<le> ?C"
    using n' assms(5) HT by simp
  have w: "h + (C - h) = C" by simp
  have md: "(unat (0::size_t) + unat ?n') mod ?C = (?H + ?N) mod ?C"
  proof -
    have "?C \<le> ?H + ?N" using assms(4) HT by linarith
    then have "(?H + ?N) mod ?C = (?H + ?N - ?C) mod ?C" by (rule le_mod_geq)
    moreover have "?H + ?N - ?C = ?N - (?C - ?H)" using assms(4) HT by linarith
    ultimately show ?thesis by (simp add: n')
  qed
  have tk: "take (unat ?n') (drop (?C - ?H) bytes) = drop (?C - ?H) bytes"
    by (simp add: n' assms(1))
  have bw: "C - h + ?n' = n" by simp
  show ?thesis
    unfolding write_loop_step[OF n0] Let_def c1 w
    apply (simp only: order_refl if_True add_0)
    apply (subst write_loop_single[OF n'0 c2 b2])
    apply (simp only: md ch tk bw ring_put_def)
    apply simp
    done
qed

lemma write_loop_whole:
  fixes C t h n :: size_t
  assumes len: "length bytes = unat n" and n0: "n \<noteq> 0"
      and hC: "h < C" and tC: "t \<le> C"
      and fit: "unat n \<le> unat (if h < t then t - h else (C - h) + t)"
  shows "write_loop C t bytes buf h 0 n =
           Some (ring_put buf (unat C) (unat h) bytes, of_nat ((unat h + unat n) mod unat C), n)"
proof -
  let ?H = "unat h" and ?T = "unat t" and ?C = "unat C" and ?N = "unat n"
  have HC: "?H < ?C" "?T \<le> ?C"
    using hC tC by (simp_all add: word_le_nat_alt word_less_nat_alt)
  have ch: "unat (C - h) = ?C - ?H"
    using hC by (simp add: unat_sub less_imp_le)
  have single: "write_loop C t bytes buf h 0 n =
           Some (ring_put buf ?C ?H bytes, of_nat ((?H + ?N) mod ?C), n)"
    if c: "(if h < t then min n (t - h) else min n (C - h)) = n" and b: "?H + ?N \<le> ?C"
  proof -
    have "ring_put buf ?C ?H bytes = store_bytes buf ?H bytes"
      using len b by (simp add: ring_put_def store_bytes_def)
    then show ?thesis
      using write_loop_single[OF n0 c b, of bytes buf 0] len by simp
  qed
  show ?thesis
  proof (cases "h < t")
    case True
    then have th: "unat (t - h) = ?T - ?H" by (simp add: unat_sub less_imp_le)
    have HT: "?H < ?T" using True by (simp add: word_less_nat_alt)
    from fit True th have le: "?N \<le> ?T - ?H" by simp
    then have "n \<le> t - h" by (simp add: word_le_nat_alt th)
    with True have "(if h < t then min n (t - h) else min n (C - h)) = n" by simp
    moreover have "?H + ?N \<le> ?C" using le HT HC by linarith
    ultimately show ?thesis by (rule single)
  next
    case False
    then have th: "t \<le> h" by (simp add: not_less)
    then have TH: "?T \<le> ?H" by (simp add: word_le_nat_alt)
    have "unat ((C - h) + t) = unat (C - h) + ?T"
      by (rule unat_add_lem[THEN iffD1]) (use ch TH HC unat_bound64[of C] in simp)
    then have "unat ((C - h) + t) = (?C - ?H) + ?T" by (simp add: ch)
    with fit False have le: "?N \<le> ?C - ?H + ?T" by simp
    show ?thesis
    proof (cases "?N \<le> ?C - ?H")
      case True
      then have "n \<le> C - h" by (simp add: word_le_nat_alt ch)
      with False have "(if h < t then min n (t - h) else min n (C - h)) = n" by simp
      moreover have "?H + ?N \<le> ?C" using True HC by linarith
      ultimately show ?thesis by (rule single)
    next
      case False
      then have "?C - ?H < ?N" by simp
      then show ?thesis using le by (intro write_loop_split len th hC)
    qed
  qed
qed

lemma write_available_le:
  assumes "m_bufferhead s < m_buffersize s" "m_buffertail s \<le> m_buffersize s"
  shows "unat (write_available s) \<le> unat (m_buffersize s)"
proof (cases "m_bufferhead s < m_buffertail s")
  case True
  then have "unat (m_buffertail s - m_bufferhead s) = unat (m_buffertail s) - unat (m_bufferhead s)"
    by (simp add: unat_sub less_imp_le)
  with True assms(2) show ?thesis
    by (simp add: write_available_def word_le_nat_alt)
next
  case False
  let ?H = "unat (m_bufferhead s)" and ?T = "unat (m_buffertail s)" and ?C = "unat (m_buffersize s)"
  from False have TH: "?T \<le> ?H" by (simp add: not_less word_le_nat_alt)
  have HC: "?H < ?C" using assms(1) by (simp add: word_less_nat_alt)
  have ch: "unat (m_buffersize s - m_bufferhead s) = ?C - ?H"
    using assms(1) by (simp add: unat_sub less_imp_le)
  have "unat ((m_buffersize s - m_bufferhead s) + m_buffertail s)
          = unat (m_buffersize s - m_bufferhead s) + ?T"
    by (rule unat_add_lem[THEN iffD1]) (use ch TH HC unat_bound64[of "m_buffersize s"] in simp)
  then have "unat ((m_buffersize s - m_bufferhead s) + m_buffertail s) = (?C - ?H) + ?T"
    by (simp add: ch)
  with False TH HC show ?thesis by (simp add: write_available_def)
qed

text \<open>
  C3. The write sink is all-or-nothing. For a chunk of \<open>n > 0\<close> bytes (with
  \<open>n + WRITE_PADDING\<close> below \<open>2^64\<close>) offered in a state whose head is below the capacity
  and whose tail is at most the capacity: when the available space is less than
  \<open>n + WRITE_PADDING\<close> the callback returns the pause value and changes nothing but
  \<^verbatim>\<open>paused\<close>, which becomes true; otherwise it returns \<open>n\<close>, stores all \<open>n\<close> bytes
  in order from the head on, split at the wrap, leaves every other byte of the ring as it
  was, moves the head to \<open>(head + n) mod C\<close>, adds \<open>n\<close> to \<^verbatim>\<open>writepos\<close>, raises
  \<^verbatim>\<open>length\<close> to it if it is larger, and sets \<^verbatim>\<open>started\<close>.
\<close>

theorem curl_write_all_or_nothing:
  assumes len: "length bytes = unat (sz * count)" and n0: "sz * count \<noteq> 0"
      and nov: "unat (sz * count) + unat wp < 2 ^ 64"
      and hC: "m_bufferhead s < m_buffersize s" and tC: "m_buffertail s \<le> m_buffersize s"
  shows "(unat (write_available s) < unat (sz * count) + unat wp \<longrightarrow>
            curl_write wp (Some bytes) sz count s = Some (CURL_WRITEFUNC_PAUSE, s\<lparr> m_paused := True \<rparr>)) \<and>
         (unat (sz * count) + unat wp \<le> unat (write_available s) \<longrightarrow>
            curl_write wp (Some bytes) sz count s =
              Some (sz * count,
                    s\<lparr> m_buffer := ring_put (m_buffer s) (unat (m_buffersize s)) (unat (m_bufferhead s)) bytes,
                       m_bufferhead := of_nat ((unat (m_bufferhead s) + unat (sz * count)) mod unat (m_buffersize s)),
                       m_writepos := m_writepos s + sz * count,
                       m_length := (if m_writepos s + sz * count > m_length s
                                    then m_writepos s + sz * count else m_length s),
                       m_started := True \<rparr>) \<and>
            (\<forall>k < unat (sz * count).
               ring_put (m_buffer s) (unat (m_buffersize s)) (unat (m_bufferhead s)) bytes
                 ((unat (m_bufferhead s) + k) mod unat (m_buffersize s)) = bytes ! k) \<and>
            (\<forall>i. (\<forall>k < unat (sz * count). i \<noteq> (unat (m_bufferhead s) + k) mod unat (m_buffersize s)) \<longrightarrow>
               ring_put (m_buffer s) (unat (m_buffersize s)) (unat (m_bufferhead s)) bytes i = m_buffer s i))"
proof -
  let ?n = "sz * count"
  have nw: "unat (?n + wp) = unat ?n + unat wp"
    by (rule unat_add_lem[THEN iffD1]) (use nov in simp)
  have av: "(write_available s < ?n + wp) = (unat (write_available s) < unat ?n + unat wp)"
    by (simp add: word_less_nat_alt nw)
  have HC: "unat (m_bufferhead s) < unat (m_buffersize s)"
    using hC by (simp add: word_less_nat_alt)
  show ?thesis
  proof (intro conjI impI)
    assume "unat (write_available s) < unat ?n + unat wp"
    then have "write_available s < ?n + wp" by (simp add: av)
    then show "curl_write wp (Some bytes) sz count s = Some (CURL_WRITEFUNC_PAUSE, s\<lparr> m_paused := True \<rparr>)"
      using n0 by (simp add: curl_write_def write_available_def Let_def)
  next
    assume a: "unat ?n + unat wp \<le> unat (write_available s)"
    then have nl: "\<not> write_available s < ?n + wp" by (simp add: av)
    from a have fit: "unat ?n \<le> unat (if m_bufferhead s < m_buffertail s
                         then m_buffertail s - m_bufferhead s
                         else (m_buffersize s - m_bufferhead s) + m_buffertail s)"
      by (simp add: write_available_def)
    have loop: "write_loop (m_buffersize s) (m_buffertail s) bytes (m_buffer s) (m_bufferhead s) 0 ?n =
                  Some (ring_put (m_buffer s) (unat (m_buffersize s)) (unat (m_bufferhead s)) bytes,
                        of_nat ((unat (m_bufferhead s) + unat ?n) mod unat (m_buffersize s)), ?n)"
      by (rule write_loop_whole[OF len n0 hC tC fit])
    from nl n0 show "curl_write wp (Some bytes) sz count s =
              Some (?n,
                    s\<lparr> m_buffer := ring_put (m_buffer s) (unat (m_buffersize s)) (unat (m_bufferhead s)) bytes,
                       m_bufferhead := of_nat ((unat (m_bufferhead s) + unat ?n) mod unat (m_buffersize s)),
                       m_writepos := m_writepos s + ?n,
                       m_length := (if m_writepos s + ?n > m_length s
                                    then m_writepos s + ?n else m_length s),
                       m_started := True \<rparr>)"
      unfolding curl_write_def Let_def
      by (simp add: write_available_def[symmetric] loop)
  next
    assume a: "unat ?n + unat wp \<le> unat (write_available s)"
    with write_available_le[OF hC tC] have nC: "length bytes \<le> unat (m_buffersize s)"
      using len by linarith
    show "\<forall>k < unat ?n.
               ring_put (m_buffer s) (unat (m_buffersize s)) (unat (m_bufferhead s)) bytes
                 ((unat (m_bufferhead s) + k) mod unat (m_buffersize s)) = bytes ! k"
      using ring_put_nth[OF HC nC] len by simp
  next
    assume a: "unat ?n + unat wp \<le> unat (write_available s)"
    with write_available_le[OF hC tC] have nC: "length bytes \<le> unat (m_buffersize s)"
      using len by linarith
    show "\<forall>i. (\<forall>k < unat ?n. i \<noteq> (unat (m_bufferhead s) + k) mod unat (m_buffersize s)) \<longrightarrow>
               ring_put (m_buffer s) (unat (m_buffersize s)) (unat (m_bufferhead s)) bytes i = m_buffer s i"
      using ring_put_other[OF HC nC] len by simp
  qed
qed

theorem curl_write_all_or_nothing_witness:
  "curl_write 16 (Some [1, 2, 3, 4]) 1 4 (running_instance 100 118 0 118 65636) =
     Some (CURL_WRITEFUNC_PAUSE, (running_instance 100 118 0 118 65636)\<lparr> m_paused := True \<rparr>) \<and>
   curl_write 16 (Some [1, 2, 3, 4]) 1 4 (running_instance 65534 100 0 100 65534) =
     Some (4, (running_instance 65534 100 0 100 65534)
                \<lparr> m_buffer := ring_put (\<lambda>_. 0) 65536 65534 [1, 2, 3, 4],
                   m_bufferhead := 2, m_writepos := 65538, m_length := 65538, m_started := True \<rparr>) \<and>
   ring_put (\<lambda>_. 0) 65536 65534 [1, 2, 3, 4] 65535 = 2 \<and>
   ring_put (\<lambda>_. 0) 65536 65534 [1, 2, 3, 4] 0 = 3 \<and>
   ring_put (\<lambda>_. 0) 65536 65534 [1, 2, 3, 4] 7 = 0"
  using curl_write_all_or_nothing[of "[1, 2, 3, 4]" 1 4 16 "running_instance 100 118 0 118 65636"]
        curl_write_all_or_nothing[of "[1, 2, 3, 4]" 1 4 16 "running_instance 65534 100 0 100 65534"]
  by (simp add: running_instance_def write_available_def ring_put_def store_bytes_def)

section \<open>Reading\<close>

lemma unat_add_bounded:
  fixes x y c :: size_t
  assumes "unat x + unat y \<le> unat c"
  shows "unat (x + y) = unat x + unat y"
  by (rule unat_add_lem[THEN iffD1]) (use assms unat_bound64[of c] in simp)

lemma load_bytes_0 [simp]: "load_bytes buf off 0 = []"
  by (simp add: load_bytes_def)

lemma length_load_bytes [simp]: "length (load_bytes buf off n) = n"
  by (simp add: load_bytes_def)

lemma read_loop_done:
  "read_loop C buf h out t br 0 = (out, t, br)"
  by (subst read_loop.simps) simp

lemma read_loop_step:
  assumes "k \<noteq> 0"
  shows "read_loop C buf h out t br k =
           (let chunk = (if t < h then min k (h - t) else min k (C - t));
                out' = out @ load_bytes buf (unat t) (unat chunk);
                t' = t + chunk;
                t'' = (if t' \<ge> C then 0 else t')
            in if t'' = h then (out', t'', br + chunk)
               else read_loop C buf h out' t'' (br + chunk) (k - chunk))"
  using assms by (subst read_loop.simps) (simp add: Let_def)

lemma read_loop_linear:
  fixes C t h k :: size_t
  assumes "k \<noteq> 0" "t < h" "h < C"
  shows "read_loop C buf h out t br k =
           (out @ load_bytes buf (unat t) (unat (min k (h - t))), t + min k (h - t), br + min k (h - t))"
proof -
  let ?c = "min k (h - t)"
  have th: "unat (h - t) = unat h - unat t" using assms(2) by (simp add: unat_sub less_imp_le)
  have cle: "unat ?c \<le> unat h - unat t"
    by (simp add: min_def word_le_nat_alt th)
  have HT: "unat t < unat h" "unat h < unat C"
    using assms by (simp_all add: word_less_nat_alt)
  have tc: "unat (t + ?c) = unat t + unat ?c"
    by (rule unat_add_bounded[of _ _ C]) (use cle HT in linarith)
  have nw: "\<not> t + ?c \<ge> C"
    using cle HT by (simp add: word_le_nat_alt tc)
  show ?thesis
  proof (cases "t + ?c = h")
    case True
    then show ?thesis
      unfolding read_loop_step[OF assms(1)] Let_def using assms(2) nw by simp
  next
    case False
    have "?c = k"
    proof (rule ccontr)
      assume "?c \<noteq> k"
      then have "?c = h - t" by (simp add: min_def split: if_splits)
      then have "t + ?c = h" by simp
      with False show False by simp
    qed
    then have "k - ?c = 0" by simp
    then show ?thesis
      unfolding read_loop_step[OF assms(1)] Let_def using assms(2) nw False
      by (simp add: read_loop_done)
  qed
qed

lemma of_nat_unat64 [simp]: "(of_nat (unat (x :: size_t)) :: size_t) = x"
  by simp

lemma read_loop_result:
  fixes C t h k :: size_t
  assumes k0: "k \<noteq> 0" and hC: "h < C" and tC: "t \<le> C" and ht: "h \<noteq> t"
  defines "m \<equiv> min (unat k) (if t < h then unat h - unat t else unat C - unat t + unat h)"
  shows "read_loop C buf h [] t 0 k =
           (ring_get buf (unat C) (unat t) m, of_nat ((unat t + m) mod unat C), of_nat m)"
proof -
  let ?H = "unat h" and ?T = "unat t" and ?C = "unat C" and ?K = "unat k"
  have HC: "?H < ?C" "?T \<le> ?C"
    using hC tC by (simp_all add: word_le_nat_alt word_less_nat_alt)
  have K0: "0 < ?K" using k0 by (simp add: unat_gt_0)
  have ct: "unat (C - t) = ?C - ?T" using tC by (simp add: unat_sub)
  show ?thesis
  proof (cases "t < h")
    case True
    let ?c = "min k (h - t)"
    have th: "unat (h - t) = ?H - ?T" using True by (simp add: unat_sub less_imp_le)
    have TH: "?T < ?H" using True by (simp add: word_less_nat_alt)
    have c: "unat ?c = m"
      using True by (simp add: m_def min_def word_le_nat_alt th)
    have mle: "m \<le> ?H - ?T" using True by (simp add: m_def)
    have "t + ?c = of_nat (?T + unat ?c)" by simp
    also have "\<dots> = of_nat ((?T + m) mod ?C)"
      using mle TH HC by (simp add: c)
    finally have t': "t + ?c = of_nat ((?T + m) mod ?C)" .
    have c': "?c = of_nat m" using c by (metis of_nat_unat64)
    have g: "ring_get buf ?C ?T m = load_bytes buf ?T m"
      using mle TH HC by (simp add: ring_get_def)
    have um: "unat (of_nat m :: size_t) = m" using c c' by simp
    show ?thesis
      unfolding read_loop_linear[OF k0 True hC] g c'
      by (simp add: um t'[unfolded c'])
  next
    case False
    with ht have lt: "h < t" by (simp add: not_less order_less_le)
    then have TH: "?H < ?T" by (simp add: word_less_nat_alt)
    have m: "m = min ?K (?C - ?T + ?H)" using False by (simp add: m_def)
    show ?thesis
    proof (cases "?K \<le> ?C - ?T")
      case True
      then have kc: "min k (C - t) = k" by (simp add: word_le_nat_alt ct)
      have mk: "m = ?K" using True by (simp add: m)
      have tk: "unat (t + k) = ?T + ?K"
        by (rule unat_add_bounded[of _ _ C]) (use True HC in linarith)
      let ?t'' = "if t + k \<ge> C then 0 else t + k"
      have t'': "?t'' = of_nat ((?T + ?K) mod ?C)"
      proof (cases "t + k \<ge> C")
        case True
        then have "?T + ?K = ?C" using \<open>?K \<le> ?C - ?T\<close> HC by (simp add: word_le_nat_alt tk)
        with True show ?thesis by simp
      next
        case False
        then have "?T + ?K < ?C" by (simp add: word_le_nat_alt tk)
        with False show ?thesis by (simp flip: tk)
      qed
      have g: "ring_get buf ?C ?T ?K = load_bytes buf ?T ?K"
        using True by (simp add: ring_get_def)
      have "read_loop C buf h [] t 0 k = (load_bytes buf ?T ?K, ?t'', k)"
        unfolding read_loop_step[OF k0] Let_def using False
        by (simp add: kc read_loop_done)
      then show ?thesis by (simp only: t'' mk g of_nat_unat64)
    next
      case nle: False
      then have KC: "?C - ?T < ?K" by simp
      then have kc: "min k (C - t) = C - t"
        by (simp add: min_def word_le_nat_alt ct)
      let ?k' = "k - (C - t)"
      have k': "unat ?k' = ?K - (?C - ?T)"
        using KC by (simp add: unat_sub word_le_nat_alt ct)
      have k'0: "?k' \<noteq> 0" using k' KC by (auto simp: unat_eq_zero)
      have w: "t + (C - t) = C" by simp
      have step: "read_loop C buf h [] t 0 k =
                    (if 0 = h then (load_bytes buf ?T (?C - ?T), 0, C - t)
                     else read_loop C buf h (load_bytes buf ?T (?C - ?T)) 0 (C - t) ?k')"
        unfolding read_loop_step[OF k0] Let_def using False
        by (simp add: kc w ct)
      show ?thesis
      proof (cases "h = 0")
        case True
        then have mm: "m = ?C - ?T" using KC by (simp add: m)
        have g: "ring_get buf ?C ?T (?C - ?T) = load_bytes buf ?T (?C - ?T)"
          by (simp add: ring_get_def)
        have e: "(of_nat (?C - ?T) :: size_t) = C - t" using ct by (metis of_nat_unat64)
        have z: "(?T + (?C - ?T)) mod ?C = 0" using HC by simp
        have "read_loop C buf h [] t 0 k = (load_bytes buf ?T (?C - ?T), 0, C - t)"
          using step True by simp
        then show ?thesis by (simp add: mm g e z)
      next
        case h0: False
        then have zh: "(0::size_t) < h" by (simp add: word_gt_0)
        let ?c2 = "min ?k' h"
        have c2: "unat ?c2 = min (?K - (?C - ?T)) ?H"
          by (simp add: min_def word_le_nat_alt k')
        have mm: "m = (?C - ?T) + unat ?c2"
          unfolding m c2 using KC by arith
        have c2H: "unat ?c2 \<le> ?H" unfolding c2 by simp
        have g: "ring_get buf ?C ?T m = load_bytes buf ?T (?C - ?T) @ load_bytes buf 0 (unat ?c2)"
          by (simp add: ring_get_def mm)
        have z: "(?T + m) mod ?C = unat ?c2"
        proof -
          have "?T + m = unat ?c2 + ?C" using HC by (simp add: mm)
          then show ?thesis using c2H HC by simp
        qed
        have e: "(of_nat m :: size_t) = (C - t) + ?c2"
          unfolding mm using ct by (metis of_nat_add of_nat_unat64)
        have "read_loop C buf h [] t 0 k =
                read_loop C buf h (load_bytes buf ?T (?C - ?T)) 0 (C - t) ?k'"
          using step h0 by simp
        then have "read_loop C buf h [] t 0 k =
                (load_bytes buf ?T (?C - ?T) @ load_bytes buf 0 (unat ?c2), 0 + ?c2, (C - t) + ?c2)"
          by (simp only: read_loop_linear[OF k'0 zh hC] unat_0 diff_zero)
        then show ?thesis by (simp only: g z e of_nat_unat64 add_0)
      qed
    qed
  qed
qed

text \<open>
  C5. \<^verbatim>\<open>read\<close> raises invalid-argument for a null buffer, and for a count above the
  capacity; it returns 0 and changes nothing for a count of 0, and when head and tail are
  equal at the end of the wait (no data arrived in time). Otherwise, with the head below
  the capacity and the tail at most the capacity, it copies \<open>min(k, buffered)\<close> bytes in
  ring order from the tail on into the start of the destination, stores the new tail
  \<open>(tail + copied) mod C\<close>, adds the number copied to \<^verbatim>\<open>readpos\<close> and returns it.
\<close>

theorem read_contract:
  "read None k timeoutms s = Inl (Invalid_argument ''buffer'') \<and>
   (k > m_buffersize s \<longrightarrow> read (Some dest) k timeoutms s = Inl (Invalid_argument ''count'')) \<and>
   read (Some dest) 0 timeoutms s = Inr (0, dest, s) \<and>
   (k \<le> m_buffersize s \<and> m_bufferhead s = m_buffertail s \<longrightarrow>
      read (Some dest) k timeoutms s = Inr (0, dest, s)) \<and>
   (k \<le> m_buffersize s \<and> k \<noteq> 0 \<and> m_bufferhead s \<noteq> m_buffertail s \<and>
    m_bufferhead s < m_buffersize s \<and> m_buffertail s \<le> m_buffersize s \<longrightarrow>
      read (Some dest) k timeoutms s =
        Inr (of_nat (min (unat k) (buffered s)),
             ring_get (m_buffer s) (unat (m_buffersize s)) (unat (m_buffertail s))
                      (min (unat k) (buffered s))
               @ drop (min (unat k) (buffered s)) dest,
             s\<lparr> m_buffertail :=
                  of_nat ((unat (m_buffertail s) + min (unat k) (buffered s)) mod unat (m_buffersize s)),
                m_readpos := m_readpos s + of_nat (min (unat k) (buffered s)) \<rparr>))"
proof (intro conjI impI)
  show "read None k timeoutms s = Inl (Invalid_argument ''buffer'')"
    by (simp add: read_def)
next
  assume "k > m_buffersize s"
  then show "read (Some dest) k timeoutms s = Inl (Invalid_argument ''count'')"
    by (simp add: read_def)
next
  show "read (Some dest) 0 timeoutms s = Inr (0, dest, s)"
    by (simp add: read_def)
next
  assume "k \<le> m_buffersize s \<and> m_bufferhead s = m_buffertail s"
  then show "read (Some dest) k timeoutms s = Inr (0, dest, s)"
    by (simp add: read_def not_less[symmetric])
next
  let ?m = "min (unat k) (buffered s)"
  assume a: "k \<le> m_buffersize s \<and> k \<noteq> 0 \<and> m_bufferhead s \<noteq> m_buffertail s \<and>
    m_bufferhead s < m_buffersize s \<and> m_buffertail s \<le> m_buffersize s"
  then have loop: "read_loop (m_buffersize s) (m_buffer s) (m_bufferhead s) [] (m_buffertail s) 0 k =
           (ring_get (m_buffer s) (unat (m_buffersize s)) (unat (m_buffertail s)) ?m,
            of_nat ((unat (m_buffertail s) + ?m) mod unat (m_buffersize s)), of_nat ?m)"
    using read_loop_result[of k "m_bufferhead s" "m_buffersize s" "m_buffertail s" "m_buffer s"]
    by (simp add: buffered_def)
  have len: "length (ring_get (m_buffer s) (unat (m_buffersize s)) (unat (m_buffertail s)) ?m) = ?m"
    by (simp add: ring_get_def)
  from a show "read (Some dest) k timeoutms s =
        Inr (of_nat ?m,
             ring_get (m_buffer s) (unat (m_buffersize s)) (unat (m_buffertail s)) ?m @ drop ?m dest,
             s\<lparr> m_buffertail := of_nat ((unat (m_buffertail s) + ?m) mod unat (m_buffersize s)),
                m_readpos := m_readpos s + of_nat ?m \<rparr>)"
    unfolding read_def Let_def
    by (simp add: not_less[symmetric] loop len del: of_nat_add)
qed

theorem read_contract_witness:
  "read None 4 50 (running_instance 2 65534 0 65534 65538) = Inl (Invalid_argument ''buffer'') \<and>
   read (Some [9, 9, 9, 9, 9, 9]) 65537 50 (running_instance 2 65534 0 65534 65538)
     = Inl (Invalid_argument ''count'') \<and>
   read (Some [9, 9, 9, 9, 9, 9]) 6 50 (running_instance 2 2 0 65538 65538)
     = Inr (0, [9, 9, 9, 9, 9, 9], running_instance 2 2 0 65538 65538) \<and>
   read (Some [9, 9, 9, 9, 9, 9]) 6 50 ((running_instance 2 65534 0 65534 65538)\<lparr> m_buffer := of_nat \<rparr>)
     = Inr (4, [254, 255, 0, 1, 9, 9],
            (running_instance 2 65534 0 65534 65538)
              \<lparr> m_buffer := of_nat, m_buffertail := 2, m_readpos := 65538 \<rparr>) \<and>
   read (Some [9, 9, 9, 9, 9, 9]) 3 50 ((running_instance 2 65534 0 65534 65538)\<lparr> m_buffer := of_nat \<rparr>)
     = Inr (3, [254, 255, 0, 9, 9, 9],
            (running_instance 2 65534 0 65534 65538)
              \<lparr> m_buffer := of_nat, m_buffertail := 1, m_readpos := 65537 \<rparr>)"
  using read_contract[of 4 50 "running_instance 2 65534 0 65534 65538" "[9, 9, 9, 9, 9, 9]"]
        read_contract[of 65537 50 "running_instance 2 65534 0 65534 65538" "[9, 9, 9, 9, 9, 9]"]
        read_contract[of 6 50 "running_instance 2 2 0 65538 65538" "[9, 9, 9, 9, 9, 9]"]
        read_contract[of 6 50 "(running_instance 2 65534 0 65534 65538)\<lparr> m_buffer := of_nat \<rparr>" "[9, 9, 9, 9, 9, 9]"]
        read_contract[of 3 50 "(running_instance 2 65534 0 65534 65538)\<lparr> m_buffer := of_nat \<rparr>" "[9, 9, 9, 9, 9, 9]"]
  by (simp add: running_instance_def buffered_def ring_get_def load_bytes_def)

section \<open>The callbacks and the worker thread\<close>

lemma write_loop_count:
  assumes "write_loop C t d buf h bw cb = Some y"
  shows "snd (snd y) = bw + cb"
proof (rule write_loop.raw_induct[where P = "\<lambda>C t d buf h bw cb y. snd (snd y) = bw + cb", OF _ assms])
  fix wl :: "size_t \<Rightarrow> size_t \<Rightarrow> uint8_t list \<Rightarrow> (nat \<Rightarrow> uint8_t) \<Rightarrow> size_t \<Rightarrow> size_t \<Rightarrow> size_t
     \<Rightarrow> ((nat \<Rightarrow> uint8_t) \<times> size_t \<times> size_t) option"
    and C t :: size_t and d buf and h bw cb :: size_t and y
  assume ih: "\<And>C t d buf h bw cb y. wl C t d buf h bw cb = Some y \<Longrightarrow> snd (snd y) = bw + cb"
    and eq: "(if cb = 0 then Some (buf, h, bw)
      else let chunk = if h < t then min cb (t - h) else min cb (C - h);
               buf' = store_bytes buf (unat h) (take (unat chunk) (drop (unat bw) d));
               head' = h + chunk
           in wl C t d buf' (if C \<le> head' then 0 else head') (bw + chunk) (cb - chunk)) = Some y"
  show "snd (snd y) = bw + cb"
  proof (cases "cb = 0")
    case True
    with eq show ?thesis by auto
  next
    case False
    with eq show ?thesis
      by (auto simp: Let_def dest!: ih)
  qed
qed

lemma write_loop_total:
  fixes C t h cb :: size_t
  assumes "C \<noteq> 0"
  shows "\<exists>r. write_loop C t d buf h bw cb = Some r"
proof (induction "2 * unat cb + (if h = C then 1 else 0)" arbitrary: cb h buf bw rule: less_induct)
  case less
  show ?case
  proof (cases "cb = 0")
    case True
    then show ?thesis by (simp add: write_loop_done)
  next
    case False
    define chunk where "chunk = (if h < t then min cb (t - h) else min cb (C - h))"
    define h' where "h' = (if h + chunk \<ge> C then 0 else h + chunk)"
    have le: "chunk \<le> cb" by (auto simp: chunk_def min_def)
    have dec: "2 * unat (cb - chunk) + (if h' = C then 1 else 0) < 2 * unat cb + (if h = C then 1 else 0)"
    proof (cases "chunk = 0")
      case True
      then have "\<not> h < t \<and> h = C"
        using False by (auto simp: chunk_def min_def split: if_splits)
      then show ?thesis using True assms by (simp add: h'_def)
    next
      case nz: False
      then have "0 < unat chunk" by (simp add: unat_gt_0)
      moreover have "unat (cb - chunk) = unat cb - unat chunk"
        using le by (simp add: unat_sub)
      moreover have "unat chunk \<le> unat cb" using le by (simp add: word_le_nat_alt)
      ultimately show ?thesis by (cases "h' = C"; cases "h = C"; simp; linarith)
    qed
    from less[OF dec] show ?thesis
      unfolding write_loop_step[OF False, of C t d buf h bw] Let_def chunk_def h'_def by simp
  qed
qed

lemma curl_write_cases:
  assumes "curl_write wp d sz n s = Some (r, s')"
  shows "(r = 0 \<and> s' = s) \<or>
         (r = CURL_WRITEFUNC_PAUSE \<and> s' = s\<lparr> m_paused := True \<rparr>) \<or>
         (sz * n \<noteq> 0 \<and> r = sz * n \<and>
          (\<exists>buf h. s' = s\<lparr> m_buffer := buf, m_bufferhead := h,
                            m_writepos := m_writepos s + sz * n,
                            m_length := (if m_writepos s + sz * n > m_length s
                                         then m_writepos s + sz * n else m_length s),
                            m_started := True \<rparr>))"
proof (cases "d = None \<or> sz * n = 0")
  case True
  with assms show ?thesis by (auto simp: curl_write_def)
next
  case False
  show ?thesis
  proof (cases "write_available s < sz * n + wp")
    case True
    with False assms show ?thesis
      by (auto simp: curl_write_def write_available_def Let_def)
  next
    case nf: False
    from assms False nf obtain buf h bw where
      wl: "write_loop (m_buffersize s) (m_buffertail s) (the d) (m_buffer s) (m_bufferhead s) 0 (sz * n)
             = Some (buf, h, bw)"
      and r: "r = bw"
      and s': "s' = s\<lparr> m_buffer := buf, m_bufferhead := h, m_writepos := m_writepos s + bw,
                      m_length := (if m_writepos s + bw > m_length s then m_writepos s + bw else m_length s),
                      m_started := True \<rparr>"
      unfolding curl_write_def Let_def write_available_def[symmetric]
      by (auto split: option.splits)
    from write_loop_count[OF wl] have "bw = sz * n" by simp
    with False r s' show ?thesis by auto
  qed
qed

lemma curl_write_total:
  assumes "m_buffersize s \<noteq> 0"
  shows "\<exists>r s'. curl_write wp d sz n s = Some (r, s')"
proof -
  obtain buf h bw where
    "write_loop (m_buffersize s) (m_buffertail s) (the d) (m_buffer s) (m_bufferhead s) 0 (sz * n)
       = Some (buf, h, bw)"
    using write_loop_total[OF assms] by (metis prod_cases3)
  then show ?thesis
    by (simp add: curl_write_def Let_def)
qed

lemma curl_responseheaders_fields:
  assumes "s' = snd (curl_responseheaders d sz n s)"
  shows "m_buffersize s' = m_buffersize s" and "m_length s' = m_length s"
    and "m_worker s' = m_worker s" and "m_curlresult s' = m_curlresult s"
    and "m_curlerr s' = m_curlerr s" and "m_buffertail s' = m_buffertail s"
    and "m_bufferhead s' = m_bufferhead s"
    and "m_started s' = m_started s"
    and "m_readpos s = m_startpos s \<Longrightarrow> m_readpos s' = m_startpos s'"
  unfolding assms curl_responseheaders_def Let_def
  by (simp_all split: option.splits)

lemma curl_transfercontrol_fields:
  assumes "s' = snd (curl_transfercontrol s)"
  shows "m_buffersize s' = m_buffersize s" and "m_length s' = m_length s"
    and "m_worker s' = m_worker s" and "m_curlresult s' = m_curlresult s"
    and "m_curlerr s' = m_curlerr s" and "m_buffertail s' = m_buffertail s"
    and "m_bufferhead s' = m_bufferhead s"
    and "m_started s' = m_started s"
    and "m_readpos s' = m_readpos s" and "m_startpos s' = m_startpos s"
    and "m_writepos s' = m_writepos s"
  unfolding assms curl_transfercontrol_def
  by simp_all

lemma curl_write_fields:
  assumes "curl_write wp d sz n s = Some (r, s')"
  shows "m_buffersize s' = m_buffersize s" and "m_length s \<le> m_length s'"
    and "m_worker s' = m_worker s" and "m_curlresult s' = m_curlresult s"
    and "m_curlerr s' = m_curlerr s" and "m_buffertail s' = m_buffertail s"
    and "m_curl s' = m_curl s" and "m_stop s' = m_stop s"
    and "m_started s \<Longrightarrow> m_started s'"
    and "m_readpos s' = m_readpos s" and "m_startpos s' = m_startpos s"
    and "m_length s' = m_length s \<or> (m_length s' = m_writepos s' \<and> m_length s < m_writepos s')"
    and "m_started s' = (m_started s \<or> m_writepos s' \<noteq> m_writepos s)"
  using curl_write_cases[OF assms]
  by (auto simp: less_imp_le split: if_splits)

lemma callback_step_fields:
  assumes "callback_step wp cb s = Some s'"
  shows "m_buffersize s' = m_buffersize s" and "m_length s \<le> m_length s'"
    and "m_worker s' = m_worker s" and "m_curlresult s' = m_curlresult s"
    and "m_curlerr s' = m_curlerr s" and "m_buffertail s' = m_buffertail s"
    and "m_started s \<Longrightarrow> m_started s'"
    and "m_readpos s = m_startpos s \<Longrightarrow> m_readpos s' = m_startpos s'"
proof -
  have "m_buffersize s' = m_buffersize s \<and> m_length s \<le> m_length s' \<and>
        m_worker s' = m_worker s \<and> m_curlresult s' = m_curlresult s \<and>
        m_curlerr s' = m_curlerr s \<and> m_buffertail s' = m_buffertail s \<and>
        (m_started s \<longrightarrow> m_started s') \<and>
        (m_readpos s = m_startpos s \<longrightarrow> m_readpos s' = m_startpos s')"
  proof (cases cb)
    case (Header d sz n)
    with assms have "s' = snd (curl_responseheaders d sz n s)" by (simp add: callback_step_def)
    from curl_responseheaders_fields[OF this] show ?thesis by simp
  next
    case (Write d sz n)
    with assms obtain r s1 where cw: "curl_write wp d sz n s = Some (r, s1)"
      and s': "s' = s1 \<or> s' = s1\<lparr> m_curl := transport_pause (m_curl s1) \<rparr>"
      by (auto simp: callback_step_def split: option.splits if_splits)
    from s' curl_write_fields[OF cw] show ?thesis by auto
  next
    case XferInfo
    with assms have "s' = snd (curl_transfercontrol s)" by (simp add: callback_step_def)
    from curl_transfercontrol_fields[OF this] show ?thesis by simp
  qed
  then show "m_buffersize s' = m_buffersize s" and "m_length s \<le> m_length s'"
    and "m_worker s' = m_worker s" and "m_curlresult s' = m_curlresult s"
    and "m_curlerr s' = m_curlerr s" and "m_buffertail s' = m_buffertail s"
    and "m_started s \<Longrightarrow> m_started s'"
    and "m_readpos s = m_startpos s \<Longrightarrow> m_readpos s' = m_startpos s'"
    by simp_all
qed

lemma callback_step_total:
  assumes "m_buffersize s \<noteq> 0"
  shows "\<exists>s'. callback_step wp cb s = Some s'"
proof (cases cb)
  case (Write d sz n)
  with curl_write_total[OF assms, of wp d sz n] show ?thesis
    by (auto simp: callback_step_def)
qed (simp_all add: callback_step_def)

lemma callback_step_started:
  assumes "callback_step wp cb s = Some s'"
  shows "m_started s' = (m_started s \<or> produces_data wp cb s)"
proof (cases cb)
  case (Header d sz n)
  with assms have "s' = snd (curl_responseheaders d sz n s)" by (simp add: callback_step_def)
  from curl_responseheaders_fields(8)[OF this] Header show ?thesis by (simp add: produces_data_def)
next
  case (Write d sz n)
  with assms obtain r s1 where cw: "curl_write wp d sz n s = Some (r, s1)"
    and s': "s' = s1 \<or> s' = s1\<lparr> m_curl := transport_pause (m_curl s1) \<rparr>"
    by (auto simp: callback_step_def split: option.splits if_splits)
  from s' have "m_started s' = m_started s1" by auto
  with curl_write_fields(13)[OF cw] cw Write show ?thesis by (simp add: produces_data_def)
next
  case XferInfo
  with assms have "s' = snd (curl_transfercontrol s)" by (simp add: callback_step_def)
  from curl_transfercontrol_fields(8)[OF this] XferInfo show ?thesis by (simp add: produces_data_def)
qed

lemma worker_step_total:
  assumes "m_buffersize s \<noteq> 0"
  shows "\<exists>s'. worker_step wp s = Some s'"
proof (cases "m_worker s")
  case None
  then show ?thesis by (simp add: worker_step_def)
next
  case (Some w)
  show ?thesis
  proof (cases w)
    case (Performing cbs r e)
    show ?thesis
    proof (cases cbs)
      case Nil
      with Some Performing show ?thesis by (simp add: worker_step_def)
    next
      case (Cons cb cbs')
      from callback_step_total[OF assms, of wp cb] obtain s1 where "callback_step wp cb s = Some s1" ..
      with Some Performing Cons show ?thesis by (simp add: worker_step_def)
    qed
  qed (use Some in \<open>simp_all add: worker_step_def\<close>)
qed

lemma worker_step_fields:
  assumes "worker_step wp s = Some s'"
  shows "m_buffersize s' = m_buffersize s" and "m_length s \<le> m_length s'"
    and "m_buffertail s' = m_buffertail s"
    and "m_started s \<Longrightarrow> m_started s'"
    and "m_readpos s = m_startpos s \<Longrightarrow> m_readpos s' = m_startpos s'"
proof -
  have "m_buffersize s' = m_buffersize s \<and> m_length s \<le> m_length s' \<and>
        m_buffertail s' = m_buffertail s \<and> (m_started s \<longrightarrow> m_started s') \<and>
        (m_readpos s = m_startpos s \<longrightarrow> m_readpos s' = m_startpos s')"
  proof (cases "m_worker s")
    case None
    with assms show ?thesis by (simp add: worker_step_def)
  next
    case (Some w)
    show ?thesis
    proof (cases w)
      case (Spawned cbs r e)
      with Some assms show ?thesis by (auto simp: worker_step_def)
    next
      case (Performing cbs r e)
      show ?thesis
      proof (cases cbs)
        case Nil
        with Some Performing assms show ?thesis by (auto simp: worker_step_def)
      next
        case (Cons cb cbs')
        with Some Performing assms obtain s1 where c: "callback_step wp cb s = Some s1"
          and s': "s' = s1\<lparr> m_worker := Some (Performing cbs' r e) \<rparr>"
          by (auto simp: worker_step_def split: option.splits)
        from callback_step_fields[OF c] show ?thesis unfolding s' by simp
      qed
    next
      case Exited
      with Some assms show ?thesis by (simp add: worker_step_def)
    qed
  qed
  then show "m_buffersize s' = m_buffersize s" and "m_length s \<le> m_length s'"
    and "m_buffertail s' = m_buffertail s"
    and "m_started s \<Longrightarrow> m_started s'"
    and "m_readpos s = m_startpos s \<Longrightarrow> m_readpos s' = m_startpos s'"
    by simp_all
qed

lemma worker_step_todo:
  assumes "worker_step wp s = Some s'" and "m_worker s \<noteq> None" and "m_worker s \<noteq> Some Exited"
  shows "worker_todo s' < worker_todo s" and "m_worker s' \<noteq> None"
    and "m_worker s' = Some Exited \<Longrightarrow> m_started s'"
proof -
  have "worker_todo s' < worker_todo s \<and> m_worker s' \<noteq> None \<and>
        (m_worker s' = Some Exited \<longrightarrow> m_started s')"
  proof (cases "m_worker s")
    case None
    with assms show ?thesis by simp
  next
    case (Some w)
    show ?thesis
    proof (cases w)
      case (Spawned cbs r e)
      with Some assms show ?thesis by (auto simp: worker_step_def worker_todo_def)
    next
      case (Performing cbs r e)
      show ?thesis
      proof (cases cbs)
        case Nil
        with Some Performing assms show ?thesis by (auto simp: worker_step_def worker_todo_def)
      next
        case (Cons cb cbs')
        with Some Performing assms show ?thesis
          by (auto simp: worker_step_def worker_todo_def split: option.splits)
      qed
    next
      case Exited
      with Some assms show ?thesis by simp
    qed
  qed
  then show "worker_todo s' < worker_todo s" and "m_worker s' \<noteq> None"
    and "m_worker s' = Some Exited \<Longrightarrow> m_started s'"
    by simp_all
qed

lemma worker_steps_inv:
  assumes "worker_steps wp n s = Some s'" and "P s"
      and "\<And>a b. P a \<Longrightarrow> worker_step wp a = Some b \<Longrightarrow> P b"
  shows "P s'"
  using assms(1,2)
proof (induction n arbitrary: s)
  case 0
  then show ?case by simp
next
  case (Suc n)
  then obtain s1 where a: "worker_step wp s = Some s1" and b: "worker_steps wp n s1 = Some s'"
    by (auto split: option.splits)
  from Suc.IH[OF b assms(3)[OF Suc.prems(2) a]] show ?case .
qed

lemma worker_steps_total:
  assumes "m_buffersize s \<noteq> 0"
  shows "\<exists>s'. worker_steps wp n s = Some s'"
  using assms
proof (induction n arbitrary: s)
  case 0
  then show ?case by simp
next
  case (Suc n)
  from worker_step_total[OF Suc.prems, of wp] obtain s1 where a: "worker_step wp s = Some s1" ..
  from worker_step_fields(1)[OF a] Suc.prems have "m_buffersize s1 \<noteq> 0" by simp
  from Suc.IH[OF this] a show ?case by simp
qed

lemma wait_until_started_inv:
  assumes "wait_until_started wp s = Some s'" and "P s"
      and "\<And>a b. P a \<Longrightarrow> worker_step wp a = Some b \<Longrightarrow> P b"
  shows "P s' \<and> m_started s'"
proof -
  have "wp = wp \<longrightarrow> P s \<longrightarrow> P s' \<and> m_started s'"
  proof (rule wait_until_started.raw_induct[where P = "\<lambda>wp' s s'. wp' = wp \<longrightarrow> P s \<longrightarrow> P s' \<and> m_started s'",
           OF _ assms(1)], intro impI)
    fix w :: "size_t \<Rightarrow> livestream \<Rightarrow> livestream option" and wp' s y
    assume ih: "\<And>wp' s y. w wp' s = Some y \<Longrightarrow> wp' = wp \<longrightarrow> P s \<longrightarrow> P y \<and> m_started y"
      and eq: "(if m_started s then Some s
                else if m_worker s = None \<or> m_worker s = Some Exited then None
                else case worker_step wp' s of None \<Rightarrow> None | Some s' \<Rightarrow> w wp' s') = Some y"
      and "wp' = wp" and p: "P s"
    show "P y \<and> m_started y"
    proof (cases "m_started s")
      case True
      with eq p show ?thesis by simp
    next
      case False
      with eq obtain s1 where a: "worker_step wp' s = Some s1" and b: "w wp' s1 = Some y"
        by (auto split: if_splits option.splits)
      from assms(3)[OF p] a \<open>wp' = wp\<close> have "P s1" by simp
      with ih[OF b] \<open>wp' = wp\<close> show ?thesis by simp
    qed
  qed
  with assms(2) show ?thesis by simp
qed

lemma join_inv:
  assumes "join wp s = Some s'" and "P s"
      and "\<And>a b. P a \<Longrightarrow> worker_step wp a = Some b \<Longrightarrow> P b"
      and "\<And>a. P a \<Longrightarrow> P (a\<lparr> m_worker := None \<rparr>)"
  shows "P s' \<and> m_worker s' = None"
proof -
  have "wp = wp \<longrightarrow> P s \<longrightarrow> P s' \<and> m_worker s' = None"
  proof (rule join.raw_induct[where P = "\<lambda>wp' s s'. wp' = wp \<longrightarrow> P s \<longrightarrow> P s' \<and> m_worker s' = None",
           OF _ assms(1)], intro impI)
    fix j :: "size_t \<Rightarrow> livestream \<Rightarrow> livestream option" and wp' s y
    assume ih: "\<And>wp' s y. j wp' s = Some y \<Longrightarrow> wp' = wp \<longrightarrow> P s \<longrightarrow> P y \<and> m_worker y = None"
      and eq: "(if m_worker s = None then Some s
                else if m_worker s = Some Exited then Some (s\<lparr> m_worker := None \<rparr>)
                else case worker_step wp' s of None \<Rightarrow> None | Some s' \<Rightarrow> j wp' s') = Some y"
      and "wp' = wp" and p: "P s"
    show "P y \<and> m_worker y = None"
    proof (cases "m_worker s = None \<or> m_worker s = Some Exited")
      case True
      with eq p assms(4)[OF p] show ?thesis by (auto split: if_splits)
    next
      case False
      with eq obtain s1 where a: "worker_step wp' s = Some s1" and b: "j wp' s1 = Some y"
        by (auto split: if_splits option.splits)
      from assms(3)[OF p] a \<open>wp' = wp\<close> have "P s1" by simp
      with ih[OF b] \<open>wp' = wp\<close> show ?thesis by simp
    qed
  qed
  with assms(2) show ?thesis by simp
qed

lemma wait_until_started_total:
  assumes "m_buffersize s \<noteq> 0"
      and "m_started s \<or> (m_worker s \<noteq> None \<and> m_worker s \<noteq> Some Exited)"
  shows "\<exists>s'. wait_until_started wp s = Some s'"
  using assms
proof (induction "worker_todo s" arbitrary: s rule: less_induct)
  case less
  show ?case
  proof (cases "m_started s")
    case True
    then show ?thesis by (subst wait_until_started.simps) simp
  next
    case False
    with less.prems have run: "m_worker s \<noteq> None" "m_worker s \<noteq> Some Exited" by simp_all
    from worker_step_total[OF less.prems(1), of wp] obtain s1 where a: "worker_step wp s = Some s1" ..
    note t = worker_step_todo[OF a run]
    have "m_buffersize s1 \<noteq> 0" using worker_step_fields(1)[OF a] less.prems(1) by simp
    moreover have "m_started s1 \<or> (m_worker s1 \<noteq> None \<and> m_worker s1 \<noteq> Some Exited)"
      using t(2,3) by blast
    ultimately obtain s' where "wait_until_started wp s1 = Some s'"
      using less.hyps[OF t(1)] by blast
    then show ?thesis
      using False run a by (subst wait_until_started.simps) simp
  qed
qed

lemma join_total:
  assumes "m_buffersize s \<noteq> 0"
  shows "\<exists>s'. join wp s = Some s'"
  using assms
proof (induction "worker_todo s" arbitrary: s rule: less_induct)
  case less
  show ?case
  proof (cases "m_worker s = None \<or> m_worker s = Some Exited")
    case True
    then show ?thesis by (subst join.simps) auto
  next
    case False
    then have run: "m_worker s \<noteq> None" "m_worker s \<noteq> Some Exited" by simp_all
    from worker_step_total[OF less.prems(1), of wp] obtain s1 where a: "worker_step wp s = Some s1" ..
    note t = worker_step_todo[OF a run]
    have "m_buffersize s1 \<noteq> 0" using worker_step_fields(1)[OF a] less.prems(1) by simp
    then obtain s' where "join wp s1 = Some s'"
      using less.hyps[OF t(1)] by blast
    then show ?thesis
      using run a by (subst join.simps) simp
  qed
qed


section \<open>Stopping\<close>

text \<open>
  C6. \<^verbatim>\<open>stop\<close> never fails. Without a joinable worker it returns 0 and changes nothing.
  With one (and a capacity other than 0) it sets the stop flag and joins the worker,
  which ends; it returns the \<^verbatim>\<open>readpos\<close> found then, and leaves the positions, the
  flags, head, tail and \<^verbatim>\<open>length\<close> at 0 or false, no worker and no transport session.
\<close>

theorem stop_total:
  "(m_worker s = None \<longrightarrow> stop wp s = Some (Inr 0, s)) \<and>
   (m_worker s \<noteq> None \<and> m_buffersize s \<noteq> 0 \<longrightarrow>
      (\<exists>s1. join wp (s\<lparr> m_stop := True \<rparr>) = Some s1 \<and> m_worker s1 = None \<and>
            stop wp s =
              Some (Inr (m_readpos s1),
                    s1\<lparr> m_started := False, m_paused := False, m_stop := False,
                        m_startpos := 0, m_readpos := 0, m_writepos := 0,
                        m_bufferhead := 0, m_buffertail := 0, m_length := 0, m_curl := None \<rparr>)))"
proof (intro conjI impI)
  assume "m_worker s = None"
  then show "stop wp s = Some (Inr 0, s)" by (simp add: stop_def)
next
  assume a: "m_worker s \<noteq> None \<and> m_buffersize s \<noteq> 0"
  then have "m_buffersize (s\<lparr> m_stop := True \<rparr>) \<noteq> 0" by simp
  from join_total[OF this, of wp] obtain s1 where j: "join wp (s\<lparr> m_stop := True \<rparr>) = Some s1" ..
  from join_inv[OF j, of "\<lambda>_. True"] have w: "m_worker s1 = None" by simp
  have "stop wp s =
              Some (Inr (m_readpos s1),
                    s1\<lparr> m_started := False, m_paused := False, m_stop := False,
                        m_startpos := 0, m_readpos := 0, m_writepos := 0,
                        m_bufferhead := 0, m_buffertail := 0, m_length := 0, m_curl := None \<rparr>)"
    using a j w by (auto simp: stop_def reset_stream_state_def Let_def)
  with j w show "\<exists>s1. join wp (s\<lparr> m_stop := True \<rparr>) = Some s1 \<and> m_worker s1 = None \<and>
            stop wp s =
              Some (Inr (m_readpos s1),
                    s1\<lparr> m_started := False, m_paused := False, m_stop := False,
                        m_startpos := 0, m_readpos := 0, m_writepos := 0,
                        m_bufferhead := 0, m_buffertail := 0, m_length := 0, m_curl := None \<rparr>)"
    by blast
qed

theorem stop_total_witness:
  "stop 16 fresh_instance = Some (Inr 0, fresh_instance) \<and>
   stop 16 (running_instance 100 60 0 60 100) =
     Some (Inr 60, fresh_instance)"
  using stop_total[of fresh_instance 16] stop_total[of "running_instance 100 60 0 60 100" 16]
  by (simp add: fresh_instance_def running_instance_def join.simps worker_step_def CURLE_OK_def)

section \<open>The observed length\<close>

lemma resume_after_started_inv:
  assumes "resume_after_started wp tr s = Some s'" and "P s"
      and "\<And>a b. P a \<Longrightarrow> worker_step wp a = Some b \<Longrightarrow> P b"
  shows "P s'"
proof -
  from assms(1) obtain s1 where a: "wait_until_started wp s = Some s1"
    and b: "worker_steps wp (t_latency tr) s1 = Some s'"
    by (auto simp: resume_after_started_def split: option.splits)
  from wait_until_started_inv[OF a, of P] assms(2,3) have "P s1" by blast
  from worker_steps_inv[OF b, of P, OF this assms(3)] show ?thesis .
qed

lemma seek_buffered_state:
  assumes "target \<noteq> m_readpos s" "m_worker s \<noteq> None"
      and "target \<ge> seek_minpos s \<and> target \<le> m_writepos s"
  shows "\<exists>t. seek wp tr target s = Some (Inr target, s\<lparr> m_buffertail := t, m_readpos := target \<rparr>)"
  using assms unfolding seek_def seek_minpos_def Let_def
  by (simp only: if_False if_True simp_thms) blast

lemma length_le_worker_step:
  "L \<le> m_length a \<Longrightarrow> worker_step wp a = Some b \<Longrightarrow> L \<le> m_length b"
  using worker_step_fields(2)[of wp a b] by simp

lemma read_length:
  assumes "read buffer count timeoutms s = Inr (n, dest, s')"
  shows "m_length s' = m_length s"
proof (cases buffer)
  case None
  with assms show ?thesis by (simp add: read_def)
next
  case (Some d)
  show ?thesis
  proof (cases "count > m_buffersize s \<or> count = 0 \<or> m_bufferhead s = m_buffertail s")
    case True
    with assms Some show ?thesis by (auto simp: read_def Let_def split: if_splits)
  next
    case False
    with assms Some show ?thesis
      by (auto simp: read_def Let_def split: prod.splits)
  qed
qed

lemma seek_length:
  assumes "seek wp tr pos s = Some (r, s')"
  shows "m_length s \<le> m_length s'"
proof (cases "pos = m_readpos s")
  case True
  with assms show ?thesis by (simp add: seek_def)
next
  case np: False
  show ?thesis
  proof (cases "m_worker s = None")
  case True
  with assms np show ?thesis by (simp add: seek_def)
next
  case False
  with np have a: "pos \<noteq> m_readpos s" "m_worker s \<noteq> None" by simp_all
  show ?thesis
  proof (cases "pos \<ge> seek_minpos s \<and> pos \<le> m_writepos s")
    case True
    from seek_buffered_state[OF a True, of wp tr] assms show ?thesis by auto
  next
    case False
    note eq = assms[unfolded seek_restart_eq[OF a False]]
    from eq obtain s1 where j: "join wp (s\<lparr> m_stop := True \<rparr>) = Some s1"
      by (auto split: option.splits)
    have l1: "m_length s \<le> m_length s1"
      using join_inv[OF j, of "\<lambda>a. m_length s \<le> m_length a"] length_le_worker_step by auto
    show ?thesis
    proof (cases "reset_stream_state True s1")
      case (Inl e)
      with eq j l1 show ?thesis by simp
    next
      case (Inr s2)
      then have l2: "m_length s2 = m_length s1"
        by (auto simp: reset_stream_state_def split: if_splits)
      show ?thesis
      proof (cases "setopt_chain (take 1 (t_setopt tr)) \<noteq> CURLE_OK")
        case True
        with eq j Inr l1 l2 show ?thesis by auto
      next
        case ok: False
        let ?s3 = "spawn tr (s2\<lparr> m_curl := map_option (\<lambda>h. h\<lparr> c_range := Some (decimal (unat pos) @ ''-'') \<rparr>) (m_curl s2) \<rparr>)"
        from eq j Inr ok obtain s4 where rs: "resume_after_started wp tr ?s3 = Some s4" and "s' = s4"
          by (auto split: option.splits if_splits)
        have "m_length s \<le> m_length ?s3" using l1 l2 by (simp add: spawn_def)
        from resume_after_started_inv[OF rs, of "\<lambda>a. m_length s \<le> m_length a", OF this]
             length_le_worker_step
        have "m_length s \<le> m_length s4" by blast
        with \<open>s' = s4\<close> show ?thesis by simp
      qed
    qed
  qed
qed
qed

lemma start_length:
  assumes "start wp tr url s = Some (r, s')"
  shows "m_length s \<le> m_length s'"
proof (cases url)
  case None
  with assms show ?thesis by (simp add: start_def)
next
  case (Some u)
  show ?thesis
  proof (cases "m_worker s \<noteq> None \<or> \<not> t_init_ok tr \<or> setopt_chain (take 11 (t_setopt tr)) \<noteq> CURLE_OK")
    case True
    with assms Some show ?thesis by (auto simp: start_def split: if_splits)
  next
    case False
    let ?s1 = "spawn tr (s\<lparr> m_curl := Some \<lparr> c_url = u, c_range = None, c_paused = False \<rparr> \<rparr>)"
    from assms Some False obtain s2 where rs: "resume_after_started wp tr ?s1 = Some s2"
      and s': "s' = s2 \<or> s' = s2\<lparr> m_curl := None \<rparr>"
      by (auto simp: start_def Let_def split: option.splits if_splits)
    have "m_length s \<le> m_length ?s1" by (simp add: spawn_def)
    from resume_after_started_inv[OF rs, of "\<lambda>a. m_length s \<le> m_length a", OF this]
         length_le_worker_step
    have "m_length s \<le> m_length s2" by blast
    with s' show ?thesis by auto
  qed
qed

lemma step_length: "step wp s s' \<Longrightarrow> m_length s \<le> m_length s'"
proof (induction rule: step.induct)
  case (step_worker s s')
  then show ?case by (rule worker_step_fields(2))
next
  case (step_read buffer count timeoutms s n dest s')
  then show ?case by (simp add: read_length)
next
  case (step_seek tr pos s r s')
  then show ?case by (rule seek_length)
next
  case (step_start tr url s r s')
  then show ?case by (rule start_length)
qed

lemma steps_length: "rtranclp (step wp) s s' \<Longrightarrow> m_length s \<le> m_length s'"
  by (induction rule: rtranclp_induct) (auto dest: step_length)

text \<open>
  C4. \<^verbatim>\<open>length\<close> never decreases except by \<^verbatim>\<open>stop\<close>. A write callback leaves it as it
  is or raises it to the new \<^verbatim>\<open>writepos\<close>, when that is larger; resetting the stream
  state leaves it as it is; over any sequence of worker steps and completed calls of
  \<^verbatim>\<open>read\<close>, \<^verbatim>\<open>seek\<close> and \<^verbatim>\<open>start\<close> it does not decrease; and \<^verbatim>\<open>stop\<close> either finds
  no worker and changes nothing, or leaves it 0.
\<close>

theorem length_monotone:
  "(\<forall>d sz n r s'. curl_write wp d sz n s = Some (r, s') \<longrightarrow>
       m_length s' = m_length s \<or> (m_length s' = m_writepos s' \<and> m_length s < m_writepos s')) \<and>
   (\<forall>owns s'. reset_stream_state owns s = Inr s' \<longrightarrow> m_length s' = m_length s) \<and>
   (\<forall>s'. rtranclp (step wp) s s' \<longrightarrow> m_length s \<le> m_length s') \<and>
   (\<forall>r s'. stop wp s = Some (r, s') \<longrightarrow> (m_worker s = None \<and> s' = s) \<or> m_length s' = 0)"
proof (intro conjI allI impI)
  fix d sz n r s'
  assume "curl_write wp d sz n s = Some (r, s')"
  then show "m_length s' = m_length s \<or> (m_length s' = m_writepos s' \<and> m_length s < m_writepos s')"
    by (rule curl_write_fields(12))
next
  fix owns s'
  assume "reset_stream_state owns s = Inr s'"
  then show "m_length s' = m_length s"
    by (auto simp: reset_stream_state_def split: if_splits)
next
  fix s'
  assume "rtranclp (step wp) s s'"
  then show "m_length s \<le> m_length s'" by (rule steps_length)
next
  fix r s'
  assume st: "stop wp s = Some (r, s')"
  show "(m_worker s = None \<and> s' = s) \<or> m_length s' = 0"
  proof (cases "m_worker s = None")
    case True
    with st show ?thesis by (simp add: stop_def)
  next
    case False
    with st obtain s1 where j: "join wp (s\<lparr> m_stop := True \<rparr>) = Some s1"
      by (auto simp: stop_def split: option.splits)
    from join_inv[OF j, of "\<lambda>_. True"] have "m_worker s1 = None" by simp
    with st False j show ?thesis
      by (auto simp: stop_def reset_stream_state_def Let_def)
  qed
qed

theorem length_monotone_witness:
  "curl_write 16 (Some [1, 2, 3, 4]) 1 4 (running_instance 65534 100 0 100 65534) =
     Some (4, (running_instance 65534 100 0 100 65534)
                \<lparr> m_buffer := ring_put (\<lambda>_. 0) 65536 65534 [1, 2, 3, 4],
                   m_bufferhead := 2, m_writepos := 65538, m_length := 65538, m_started := True \<rparr>) \<and>
   m_length (running_instance 65534 100 0 100 65534) < 65538 \<and>
   reset_stream_state True fresh_instance = Inr fresh_instance \<and>
   rtranclp (step 16) (running_instance 100 60 0 60 100)
     ((running_instance 100 60 0 60 100)\<lparr> m_buffertail := 70, m_readpos := 70 \<rparr>) \<and>
   m_length (running_instance 100 60 0 60 100)
     \<le> m_length ((running_instance 100 60 0 60 100)\<lparr> m_buffertail := 70, m_readpos := 70 \<rparr>) \<and>
   stop 16 (running_instance 100 60 0 60 100) = Some (Inr 60, fresh_instance) \<and>
   m_length fresh_instance = 0"
proof -
  let ?w = "running_instance 65534 100 0 100 65534"
  let ?s = "running_instance 100 60 0 60 100"
  have wl: "write_loop 65536 100 [1, 2, 3, 4] (\<lambda>_. 0) 65534 0 4 =
              Some (ring_put (\<lambda>_. 0) 65536 65534 [1, 2, 3, 4], 2, 4)"
    using write_loop_whole[of "[1, 2, 3, 4]" 4 65534 65536 100 "\<lambda>_. 0"] by simp
  have w: "curl_write 16 (Some [1, 2, 3, 4]) 1 4 ?w =
     Some (4, ?w\<lparr> m_buffer := ring_put (\<lambda>_. 0) 65536 65534 [1, 2, 3, 4],
                   m_bufferhead := 2, m_writepos := 65538, m_length := 65538, m_started := True \<rparr>)"
    by (simp add: curl_write_def running_instance_def wl)
  have rd: "read (Some [0, 0, 0, 0, 0, 0, 0, 0, 0, 0]) 10 50 ?s =
              Inr (10, [0, 0, 0, 0, 0, 0, 0, 0, 0, 0], ?s\<lparr> m_buffertail := 70, m_readpos := 70 \<rparr>)"
    using read_loop_result[of 10 100 65536 60 "\<lambda>_. 0"]
    by (simp add: read_def running_instance_def ring_get_def load_bytes_def)
  have p: "rtranclp (step 16) ?s (?s\<lparr> m_buffertail := 70, m_readpos := 70 \<rparr>)"
    by (rule r_into_rtranclp) (rule step_read[OF rd])
  have st: "stop 16 ?s = Some (Inr 60, fresh_instance)"
    by (simp add: stop_def fresh_instance_def running_instance_def join.simps worker_step_def
                  reset_stream_state_def CURLE_OK_def)
  have rs: "reset_stream_state True fresh_instance = Inr fresh_instance"
    by (simp add: reset_stream_state_def fresh_instance_def)
  from length_monotone[of 16 ?w] w
  have a: "m_length ?w < 65538" by (auto simp: running_instance_def)
  from length_monotone[of 16 ?s] p
  have b: "m_length ?s \<le> m_length (?s\<lparr> m_buffertail := 70, m_readpos := 70 \<rparr>)" by blast
  from length_monotone[of 16 ?s] st
  have c: "m_length fresh_instance = 0" by (auto simp: running_instance_def)
  from w a rs p b st c show ?thesis by simp
qed

section \<open>The header lines that set the positions\<close>

lemma not_space_facts:
  "\<not> isspace (CHR ''+'')" "\<not> isspace (CHR ''-'')" "\<not> isspace (CHR ''b'')"
  "\<not> isdigit (CHR ''+'')" "\<not> isdigit (CHR ''-'')"
  by (simp_all add: isspace_def isdigit_def)

lemma digit_not_space: "isdigit c \<Longrightarrow> \<not> isspace c"
  by (auto simp: isspace_def isdigit_def)

lemma dropWhile_all: "list_all P xs \<Longrightarrow> dropWhile P (xs @ ys) = dropWhile P ys"
  by (induction xs) simp_all

lemma takeWhile_stop: "ys = [] \<or> \<not> P (hd ys) \<Longrightarrow> takeWhile P ys = []"
  by (cases ys) auto

lemma takeWhile_all: "list_all P xs \<Longrightarrow> ys = [] \<or> \<not> P (hd ys) \<Longrightarrow> takeWhile P (xs @ ys) = xs"
  by (induction xs) (simp_all add: takeWhile_stop)

lemma dropWhile_stop: "ys = [] \<or> \<not> P (hd ys) \<Longrightarrow> dropWhile P ys = ys"
  by (cases ys) auto

lemma list_all_takeWhile: "list_all P (takeWhile P xs)"
  by (induction xs) simp_all

lemma dropWhile_head: "dropWhile P xs = [] \<or> \<not> P (hd (dropWhile P xs))"
  by (induction xs) simp_all

lemma scan_llu_shape:
  "(scan_llu txt = Some v) =
     (\<exists>ws sgn ds rest.
        txt = ws @ sgn @ ds @ rest \<and> list_all isspace ws \<and>
        (sgn = [] \<or> sgn = ''+'' \<or> sgn = ''-'') \<and>
        ds \<noteq> [] \<and> list_all isdigit ds \<and> (rest = [] \<or> \<not> isdigit (hd rest)) \<and>
        v = llu_value (sgn = ''-'') (decimal_val ds))"
  (is "?L = ?R")
proof
  assume L: ?L
  define t where "t = dropWhile isspace txt"
  define sg where "sg = (t \<noteq> [] \<and> (hd t = CHR ''-'' \<or> hd t = CHR ''+''))"
  define sgn where "sgn = (if sg then [hd t] else [])"
  define t' where "t' = (if sg then tl t else t)"
  define ds where "ds = takeWhile isdigit t'"
  have t: "t = sgn @ t'" by (simp add: sgn_def t'_def sg_def)
  have "txt = takeWhile isspace txt @ t" by (simp add: t_def)
  also have "\<dots> = takeWhile isspace txt @ sgn @ ds @ dropWhile isdigit t'"
    by (subst t) (simp add: ds_def)
  finally have d: "txt = takeWhile isspace txt @ sgn @ ds @ dropWhile isdigit t'" .
  have code: "scan_llu txt =
                (if ds = [] then None
                 else if decimal_val ds \<ge> 2 ^ 64 then Some (- 1)
                 else if t \<noteq> [] \<and> hd t = CHR ''-'' then Some (- of_nat (decimal_val ds))
                 else Some (of_nat (decimal_val ds)))"
    by (simp add: scan_llu_def Let_def t_def ds_def t'_def sg_def)
  from L have ne: "ds \<noteq> []" by (auto simp: code split: if_splits)
  have neg: "(sgn = ''-'') = (t \<noteq> [] \<and> hd t = CHR ''-'')" by (auto simp: sgn_def sg_def)
  from L ne have v: "v = llu_value (sgn = ''-'') (decimal_val ds)"
    unfolding neg by (auto simp: code llu_value_def split: if_splits)
  have s3: "sgn = [] \<or> sgn = ''+'' \<or> sgn = ''-''" by (auto simp: sgn_def sg_def)
  have "txt = takeWhile isspace txt @ sgn @ ds @ dropWhile isdigit t' \<and>
        list_all isspace (takeWhile isspace txt) \<and> (sgn = [] \<or> sgn = ''+'' \<or> sgn = ''-'') \<and>
        ds \<noteq> [] \<and> list_all isdigit ds \<and>
        (dropWhile isdigit t' = [] \<or> \<not> isdigit (hd (dropWhile isdigit t'))) \<and>
        v = llu_value (sgn = ''-'') (decimal_val ds)"
    using d s3 ne v list_all_takeWhile list_all_takeWhile dropWhile_head
    unfolding ds_def by blast
  then show ?R by blast
next
  assume ?R
  then obtain ws sgn ds rest where
    d: "txt = ws @ sgn @ ds @ rest" and ws: "list_all isspace ws"
    and sg: "sgn = [] \<or> sgn = ''+'' \<or> sgn = ''-''"
    and ds: "ds \<noteq> []" "list_all isdigit ds" and rest: "rest = [] \<or> \<not> isdigit (hd rest)"
    and v: "v = llu_value (sgn = ''-'') (decimal_val ds)" by blast
  from ds obtain c ds' where dc: "ds = c # ds'" and c: "isdigit c" by (cases ds) auto
  have cn: "c \<noteq> CHR ''-''" "c \<noteq> CHR ''+''" "\<not> isspace c"
    using c not_space_facts digit_not_space by auto
  have t: "dropWhile isspace txt = sgn @ ds @ rest"
  proof -
    have "\<not> isspace (hd (sgn @ ds @ rest))"
      using sg dc cn not_space_facts by auto
    then have "dropWhile isspace (sgn @ ds @ rest) = sgn @ ds @ rest"
      by (intro dropWhile_stop) simp
    then show ?thesis unfolding d by (simp add: dropWhile_all[OF ws])
  qed
  have tw: "takeWhile isdigit (ds @ rest) = ds" by (rule takeWhile_all[OF ds(2) rest])
  from sg show ?L
  proof (elim disjE)
    assume "sgn = []"
    then show ?thesis
      using t tw dc cn ds v by (simp add: scan_llu_def Let_def llu_value_def)
  next
    assume "sgn = ''+''"
    then show ?thesis
      using t tw ds v by (simp add: scan_llu_def Let_def llu_value_def)
  next
    assume "sgn = ''-''"
    then show ?thesis
      using t tw ds v by (simp add: scan_llu_def Let_def llu_value_def)
  qed
qed

lemma scan_literal_append: "scan_literal lit (lit @ x) = Some x"
  by (simp add: scan_literal_def)

lemma scan_literal_Some: "scan_literal lit txt = Some r \<Longrightarrow> txt = lit @ r"
  by (auto simp: scan_literal_def split: if_splits) (metis append_take_drop_id)

lemma scan_llu_skips: "scan_llu (dropWhile isspace y) = scan_llu y"
  by (simp add: scan_llu_def)

lemma sscanf_content_range_shape:
  "(sscanf_content_range txt = Some v) = content_range_line txt v"
proof
  assume a: "sscanf_content_range txt = Some v"
  then obtain r1 where 1: "scan_literal ''Content-Range:'' txt = Some r1"
    by (auto simp: sscanf_content_range_def split: option.splits)
  with a obtain r2 where 2: "scan_literal ''bytes'' (dropWhile isspace r1) = Some r2"
    by (auto simp: sscanf_content_range_def split: option.splits)
  with a 1 have 3: "scan_llu r2 = Some v"
    by (simp add: sscanf_content_range_def scan_llu_skips)
  then obtain ws sgn ds rest where
    r2: "r2 = ws @ sgn @ ds @ rest" and p: "list_all isspace ws"
      "sgn = [] \<or> sgn = ''+'' \<or> sgn = ''-''" "ds \<noteq> []" "list_all isdigit ds"
      "rest = [] \<or> \<not> isdigit (hd rest)" "v = llu_value (sgn = ''-'') (decimal_val ds)"
    unfolding scan_llu_shape by blast
  have "r1 = takeWhile isspace r1 @ dropWhile isspace r1" by simp
  also have "\<dots> = takeWhile isspace r1 @ ''bytes'' @ r2"
    using scan_literal_Some[OF 2] by simp
  finally have "txt = ''Content-Range:'' @ takeWhile isspace r1 @ ''bytes'' @ ws @ sgn @ ds @ rest"
    using scan_literal_Some[OF 1] r2 by simp
  with p list_all_takeWhile[of isspace r1] show "content_range_line txt v"
    unfolding content_range_line_def by blast
next
  assume "content_range_line txt v"
  then obtain ws1 ws2 sgn ds rest where
    t: "txt = ''Content-Range:'' @ ws1 @ ''bytes'' @ ws2 @ sgn @ ds @ rest"
    and w1: "list_all isspace ws1" and p: "list_all isspace ws2"
      "sgn = [] \<or> sgn = ''+'' \<or> sgn = ''-''" "ds \<noteq> []" "list_all isdigit ds"
      "rest = [] \<or> \<not> isdigit (hd rest)" "v = llu_value (sgn = ''-'') (decimal_val ds)"
    unfolding content_range_line_def by blast
  let ?y = "ws2 @ sgn @ ds @ rest"
  have 1: "scan_literal ''Content-Range:'' txt = Some (ws1 @ ''bytes'' @ ?y)"
    unfolding t by (rule scan_literal_append)
  have "dropWhile isspace (ws1 @ ''bytes'' @ ?y) = dropWhile isspace (''bytes'' @ ?y)"
    by (rule dropWhile_all[OF w1])
  also have "\<dots> = ''bytes'' @ ?y" using not_space_facts(3) by simp
  finally have 2: "scan_literal ''bytes'' (dropWhile isspace (ws1 @ ''bytes'' @ ?y)) = Some ?y"
    by (simp only: scan_literal_append)
  have 3: "scan_llu ?y = Some v" unfolding scan_llu_shape using p by blast
  show "sscanf_content_range txt = Some v"
    by (simp only: sscanf_content_range_def 1 2 option.case scan_llu_skips 3)
qed

lemma c_str_no_nul: "CHR 0x00 \<notin> set line \<Longrightarrow> c_str line = line"
  by (simp add: c_str_def takeWhile_eq_all_conv) metis

text \<open>
  C8 (as amended). For a header line without NUL that is followed by a NUL, the header
  callback returns the byte count it was given. If the line consists of the exact prefix
  \<^verbatim>\<open>Content-Range:\<close>, any white space, \<^verbatim>\<open>bytes\<close>, any white space and an optionally
  signed decimal number (whatever follows the number), it sets \<^verbatim>\<open>startpos\<close>,
  \<^verbatim>\<open>readpos\<close> and \<^verbatim>\<open>writepos\<close> to that number and changes nothing else; for every
  other line it leaves the state as it is.
\<close>

theorem header_adapter:
  assumes "length line = unat (sz * count)" and "CHR 0x00 \<notin> set line"
  shows "fst (curl_responseheaders line sz count s) = sz * count \<and>
         (\<forall>v. content_range_line line v \<longrightarrow>
              snd (curl_responseheaders line sz count s) =
                s\<lparr> m_startpos := v, m_readpos := v, m_writepos := v \<rparr>) \<and>
         ((\<forall>v. \<not> content_range_line line v) \<longrightarrow> snd (curl_responseheaders line sz count s) = s)"
proof (intro conjI allI impI)
  show "fst (curl_responseheaders line sz count s) = sz * count"
    by (simp add: curl_responseheaders_def Let_def split: option.splits)
next
  fix v
  assume c: "content_range_line line v"
  then have sc: "sscanf_content_range (c_str line) = Some v"
    by (simp add: sscanf_content_range_shape c_str_no_nul[OF assms(2)])
  from c obtain x where l: "line = ''Content-Range:'' @ x"
    unfolding content_range_line_def by blast
  then have tk: "take 14 line = ''Content-Range:''" by simp
  from l have "14 \<le> length line" by simp
  then have ge: "14 \<le> sz * count" and nz: "sz * count \<noteq> 0"
    using assms(1) by (auto simp: word_le_nat_alt)
  show "snd (curl_responseheaders line sz count s) =
          s\<lparr> m_startpos := v, m_readpos := v, m_writepos := v \<rparr>"
    using ge nz tk sc by (simp add: curl_responseheaders_def Let_def)
next
  assume "\<forall>v. \<not> content_range_line line v"
  then have "sscanf_content_range (c_str line) = None"
    using sscanf_content_range_shape[of "c_str line"] c_str_no_nul[OF assms(2)]
    by (cases "sscanf_content_range (c_str line)") auto
  then show "snd (curl_responseheaders line sz count s) = s"
    by (simp add: curl_responseheaders_def Let_def)
qed

theorem header_adapter_witness:
  "fst (curl_responseheaders (''Content-Range: bytes 1000-1999/2000'' @ [CHR 0x0D, CHR 0x0A]) 1 37
          fresh_instance) = 37 \<and>
   content_range_line (''Content-Range: bytes 1000-1999/2000'' @ [CHR 0x0D, CHR 0x0A]) 1000 \<and>
   snd (curl_responseheaders (''Content-Range: bytes 1000-1999/2000'' @ [CHR 0x0D, CHR 0x0A]) 1 37
          fresh_instance) =
     fresh_instance\<lparr> m_startpos := 1000, m_readpos := 1000, m_writepos := 1000 \<rparr> \<and>
   snd (curl_responseheaders (''content-range: bytes 5-'' @ [CHR 0x0D, CHR 0x0A]) 1 25
          fresh_instance) = fresh_instance"
proof -
  let ?L1 = "''Content-Range: bytes 1000-1999/2000'' @ [CHR 0x0D, CHR 0x0A]"
  let ?L2 = "''content-range: bytes 5-'' @ [CHR 0x0D, CHR 0x0A]"
  have "sscanf_content_range ?L1 = Some 1000"
    by (simp add: sscanf_content_range_def scan_literal_def scan_llu_def
                  isspace_def isdigit_def decimal_val_def digit_val_def Let_def)
  then have c1: "content_range_line ?L1 1000" by (simp only: sscanf_content_range_shape)
  have "sscanf_content_range ?L2 = None"
    by (simp add: sscanf_content_range_def scan_literal_def)
  then have c2: "\<forall>v. \<not> content_range_line ?L2 v"
    by (simp flip: sscanf_content_range_shape)
  have h1: "length ?L1 = unat ((1 :: size_t) * 37)" "CHR 0x00 \<notin> set ?L1" by simp_all
  have h2: "length ?L2 = unat ((1 :: size_t) * 25)" "CHR 0x00 \<notin> set ?L2" by simp_all
  note a = header_adapter[OF h1, of fresh_instance]
  note b = header_adapter[OF h2, of fresh_instance]
  from a have a1: "fst (curl_responseheaders ?L1 1 37 fresh_instance) = 37" by simp
  from a c1 have a2: "snd (curl_responseheaders ?L1 1 37 fresh_instance) =
     fresh_instance\<lparr> m_startpos := 1000, m_readpos := 1000, m_writepos := 1000 \<rparr>" by blast
  from b c2 have b1: "snd (curl_responseheaders ?L2 1 25 fresh_instance) = fresh_instance" by blast
  from a1 c1 a2 b1 show ?thesis by (intro conjI)
qed

theorem header_without_dash_counterexample:
  "snd (curl_responseheaders (''Content-Range: bytes 100'' @ [CHR 0x0D, CHR 0x0A]) 1 26 fresh_instance) =
     fresh_instance\<lparr> m_startpos := 100, m_readpos := 100, m_writepos := 100 \<rparr>"
  by (simp add: curl_responseheaders_def sscanf_content_range_def scan_literal_def scan_llu_def
                c_str_def isspace_def isdigit_def decimal_val_def digit_val_def Let_def)

text \<open>
  The scan is given the data pointer, not the terminated copy: when the line is not
  followed by a NUL, digits beyond its end are read as part of the number.
\<close>

lemma header_reads_past_line:
  "snd (curl_responseheaders (''Content-Range: bytes 1'' @ ''23-'') 1 22 fresh_instance) =
     fresh_instance\<lparr> m_startpos := 123, m_readpos := 123, m_writepos := 123 \<rparr>"
  by (simp add: curl_responseheaders_def sscanf_content_range_def scan_literal_def scan_llu_def
                c_str_def isspace_def isdigit_def decimal_val_def digit_val_def Let_def)

section \<open>Starting\<close>

lemma curl_write_worker_upd:
  "curl_write wp d sz n (s\<lparr> m_worker := w \<rparr>) =
     map_option (\<lambda>(r, s'). (r, s'\<lparr> m_worker := w \<rparr>)) (curl_write wp d sz n s)"
  by (simp add: curl_write_def Let_def split: option.splits)

lemma callback_step_worker_upd:
  "callback_step wp cb (s\<lparr> m_worker := w \<rparr>) =
     map_option (\<lambda>s'. s'\<lparr> m_worker := w \<rparr>) (callback_step wp cb s)"
proof (cases cb)
  case (Header d sz n)
  then show ?thesis
    by (simp add: callback_step_def curl_responseheaders_def Let_def split: option.splits)
next
  case (Write d sz n)
  then show ?thesis
    by (simp add: callback_step_def curl_write_worker_upd split: option.splits)
next
  case XferInfo
  then show ?thesis
    by (simp add: callback_step_def curl_transfercontrol_def)
qed

lemma produces_data_worker_upd:
  "produces_data wp cb (s\<lparr> m_worker := w \<rparr>) = produces_data wp cb s"
  by (cases cb) (auto simp: produces_data_def curl_write_worker_upd split: option.splits)

lemma data_produced_worker_upd:
  "data_produced wp cbs (s\<lparr> m_worker := w \<rparr>) = data_produced wp cbs s"
proof (induction cbs arbitrary: s)
  case Nil
  then show ?case by simp
next
  case (Cons cb cbs)
  show ?case
    by (cases "callback_step wp cb s")
       (simp_all add: produces_data_worker_upd callback_step_worker_upd Cons.IH)
qed

lemma curl_write_result_upd:
  "curl_write wp d sz n (s\<lparr> m_curlresult := c, m_curlerr := e \<rparr>) =
     map_option (\<lambda>(r, s'). (r, s'\<lparr> m_curlresult := c, m_curlerr := e \<rparr>)) (curl_write wp d sz n s)"
  by (simp add: curl_write_def Let_def split: option.splits)

lemma callback_step_result_upd:
  "callback_step wp cb (s\<lparr> m_curlresult := c, m_curlerr := e \<rparr>) =
     map_option (\<lambda>s'. s'\<lparr> m_curlresult := c, m_curlerr := e \<rparr>) (callback_step wp cb s)"
proof (cases cb)
  case (Header d sz n)
  then show ?thesis
    by (simp add: callback_step_def curl_responseheaders_def Let_def split: option.splits)
next
  case (Write d sz n)
  then show ?thesis
    by (simp add: callback_step_def curl_write_result_upd split: option.splits)
next
  case XferInfo
  then show ?thesis
    by (simp add: callback_step_def curl_transfercontrol_def)
qed

lemma produces_data_result_upd:
  "produces_data wp cb (s\<lparr> m_curlresult := c, m_curlerr := e \<rparr>) = produces_data wp cb s"
  by (cases cb) (auto simp: produces_data_def curl_write_result_upd split: option.splits)

lemma data_produced_result_upd:
  "data_produced wp cbs (s\<lparr> m_curlresult := c, m_curlerr := e \<rparr>) = data_produced wp cbs s"
proof (induction cbs arbitrary: s)
  case Nil
  then show ?case by simp
next
  case (Cons cb cbs)
  show ?case
    by (cases "callback_step wp cb s")
       (simp_all add: produces_data_result_upd callback_step_result_upd Cons.IH)
qed

lemma wait_no_data:
  assumes "m_buffersize s \<noteq> 0" and "\<not> m_started s"
      and "m_worker s = Some (Performing cbs r e)" and "\<not> data_produced wp cbs s"
  shows "\<exists>s'. wait_until_started wp s = Some s' \<and> m_worker s' = Some Exited \<and>
              m_curlresult s' = r \<and> m_curlerr s' = e"
  using assms
proof (induction cbs arbitrary: s)
  case Nil
  let ?s1 = "s\<lparr> m_curlresult := r, m_curlerr := e, m_started := True, m_worker := Some Exited \<rparr>"
  have st: "worker_step wp s = Some ?s1" using Nil by (simp add: worker_step_def)
  have "wait_until_started wp ?s1 = Some ?s1" by (subst wait_until_started.simps) simp
  then have "wait_until_started wp s = Some ?s1"
    using Nil st by (subst wait_until_started.simps) simp
  then show ?case by simp
next
  case (Cons cb cbs)
  from callback_step_total[OF Cons.prems(1), of wp cb] obtain s1 where c: "callback_step wp cb s = Some s1" ..
  let ?s1 = "s1\<lparr> m_worker := Some (Performing cbs r e) \<rparr>"
  have st: "worker_step wp s = Some ?s1" using Cons.prems(3) c by (simp add: worker_step_def)
  from Cons.prems(4) c have np: "\<not> produces_data wp cb s" and nd: "\<not> data_produced wp cbs s1" by simp_all
  have "m_started s1 = m_started s" using callback_step_started[OF c] np by simp
  then have a: "\<not> m_started ?s1" using Cons.prems(2) by simp
  have b: "m_buffersize ?s1 \<noteq> 0" using callback_step_fields(1)[OF c] Cons.prems(1) by simp
  have d: "\<not> data_produced wp cbs ?s1" using nd by (simp add: data_produced_worker_upd)
  from Cons.IH[OF b a _ d] obtain s' where
    w: "wait_until_started wp ?s1 = Some s'" and r: "m_worker s' = Some Exited"
       "m_curlresult s' = r" "m_curlerr s' = e" by auto
  have "wait_until_started wp s = Some s'"
    using Cons.prems(2,3) st w by (subst wait_until_started.simps) simp
  with r show ?case by simp
qed

lemma wait_spawned:
  assumes "\<not> m_started s" and "m_worker s = Some (Spawned cbs r e)"
  shows "wait_until_started wp s =
           wait_until_started wp (s\<lparr> m_curlresult := CURLE_OK, m_curlerr := [],
                                       m_worker := Some (Performing cbs r e) \<rparr>)"
  using assms by (subst wait_until_started.simps) (simp add: worker_step_def)

lemma worker_steps_exited:
  "m_worker s = Some Exited \<Longrightarrow> worker_steps wp n s = Some s"
  by (induction n) (simp_all add: worker_step_def)

lemma start_spawns:
  assumes "m_worker s = None" and "t_init_ok tr"
      and "setopt_chain (take 11 (t_setopt tr)) = CURLE_OK"
  shows "start wp tr (Some u) s =
           (case resume_after_started wp tr
                   (spawn tr (s\<lparr> m_curl := Some \<lparr> c_url = u, c_range = None, c_paused = False \<rparr> \<rparr>)) of
              None \<Rightarrow> None
            | Some s2 \<Rightarrow>
                if m_curlresult s2 \<noteq> CURLE_OK then
                  Some (Inl (String_exception
                          [Str ''start'', Str '': failed to start transfer for url '', Str u,
                           Str '': '', Str (m_curlerr s2)]),
                        s2\<lparr> m_curl := None \<rparr>)
                else Some (Inr (m_readpos s2), s2))"
  using assms by (simp add: start_def Let_def)

lemma rest_after_data_worker_upd:
  "rest_after_data wp cbs (s\<lparr> m_worker := w \<rparr>) = rest_after_data wp cbs s"
proof (induction cbs arbitrary: s)
  case Nil
  then show ?case by simp
next
  case (Cons cb cbs)
  show ?case
    by (cases "callback_step wp cb s")
       (simp_all add: produces_data_worker_upd callback_step_worker_upd Cons.IH)
qed

lemma rest_after_data_result_upd:
  "rest_after_data wp cbs (s\<lparr> m_curlresult := c, m_curlerr := e \<rparr>) = rest_after_data wp cbs s"
proof (induction cbs arbitrary: s)
  case Nil
  then show ?case by simp
next
  case (Cons cb cbs)
  show ?case
    by (cases "callback_step wp cb s")
       (simp_all add: produces_data_result_upd callback_step_result_upd Cons.IH)
qed

lemma wait_data:
  assumes "m_buffersize s \<noteq> 0" and "\<not> m_started s"
      and "m_worker s = Some (Performing cbs r e)" and "data_produced wp cbs s"
  shows "\<exists>s'. wait_until_started wp s = Some s' \<and> m_curlresult s' = m_curlresult s \<and>
              m_curlerr s' = m_curlerr s \<and> m_buffersize s' \<noteq> 0 \<and>
              m_worker s' = Some (Performing (rest_after_data wp cbs s) r e)"
  using assms
proof (induction cbs arbitrary: s)
  case Nil
  then show ?case by simp
next
  case (Cons cb cbs)
  from callback_step_total[OF Cons.prems(1), of wp cb] obtain s1 where c: "callback_step wp cb s = Some s1" ..
  let ?s1 = "s1\<lparr> m_worker := Some (Performing cbs r e) \<rparr>"
  have st: "worker_step wp s = Some ?s1" using Cons.prems(3) c by (simp add: worker_step_def)
  have cr: "m_curlresult ?s1 = m_curlresult s" "m_curlerr ?s1 = m_curlerr s"
    using callback_step_fields(4,5)[OF c] by simp_all
  have b: "m_buffersize ?s1 \<noteq> 0" using callback_step_fields(1)[OF c] Cons.prems(1) by simp
  have "\<exists>s'. wait_until_started wp ?s1 = Some s' \<and> m_curlresult s' = m_curlresult ?s1 \<and>
             m_curlerr s' = m_curlerr ?s1 \<and> m_buffersize s' \<noteq> 0 \<and>
             m_worker s' = Some (Performing (rest_after_data wp (cb # cbs) s) r e)"
  proof (cases "produces_data wp cb s")
    case True
    then have "m_started ?s1" using callback_step_started[OF c] by simp
    then have "wait_until_started wp ?s1 = Some ?s1" by (subst wait_until_started.simps) simp
    with True b show ?thesis by simp
  next
    case False
    then have "m_started s1 = m_started s" using callback_step_started[OF c] by simp
    then have a: "\<not> m_started ?s1" using Cons.prems(2) by simp
    from False Cons.prems(4) c have "data_produced wp cbs s1" by simp
    then have d: "data_produced wp cbs ?s1" by (simp add: data_produced_worker_upd)
    have "rest_after_data wp (cb # cbs) s = rest_after_data wp cbs ?s1"
      using False c by (simp add: rest_after_data_worker_upd)
    with Cons.IH[OF b a _ d] show ?thesis by simp
  qed
  then obtain s' where w: "wait_until_started wp ?s1 = Some s'"
    and r: "m_curlresult s' = m_curlresult ?s1" "m_curlerr s' = m_curlerr ?s1" "m_buffersize s' \<noteq> 0"
           "m_worker s' = Some (Performing (rest_after_data wp (cb # cbs) s) r e)" by auto
  have "wait_until_started wp s = Some s'"
    using Cons.prems(2,3) st w by (subst wait_until_started.simps) simp
  with r cr show ?case by simp
qed

lemma worker_steps_performing:
  assumes "m_buffersize s \<noteq> 0" and "m_worker s = Some (Performing cbs r e)" and "n \<le> length cbs"
  shows "\<exists>s'. worker_steps wp n s = Some s' \<and> m_curlresult s' = m_curlresult s \<and>
              m_curlerr s' = m_curlerr s \<and> m_worker s' = Some (Performing (drop n cbs) r e)"
  using assms
proof (induction n arbitrary: s cbs)
  case 0
  then show ?case by simp
next
  case (Suc n)
  then obtain cb cbs' where cbs: "cbs = cb # cbs'" by (cases cbs) auto
  from callback_step_total[OF Suc.prems(1), of wp cb] obtain s1 where c: "callback_step wp cb s = Some s1" ..
  let ?s1 = "s1\<lparr> m_worker := Some (Performing cbs' r e) \<rparr>"
  have st: "worker_step wp s = Some ?s1" using Suc.prems(2) cbs c by (simp add: worker_step_def)
  have b: "m_buffersize ?s1 \<noteq> 0" using callback_step_fields(1)[OF c] Suc.prems(1) by simp
  have w: "m_worker ?s1 = Some (Performing cbs' r e)" by simp
  have n: "n \<le> length cbs'" using Suc.prems(3) cbs by simp
  from Suc.IH[OF b w n] obtain s' where
    "worker_steps wp n ?s1 = Some s'" "m_curlresult s' = m_curlresult ?s1"
    "m_curlerr s' = m_curlerr ?s1" "m_worker s' = Some (Performing (drop n cbs') r e)" by auto
  with st callback_step_fields(4,5)[OF c] cbs show ?case by simp
qed

lemma worker_steps_exits:
  assumes "m_buffersize s \<noteq> 0" and "m_worker s = Some (Performing cbs r e)" and "length cbs < n"
  shows "\<exists>s'. worker_steps wp n s = Some s' \<and> m_curlresult s' = r \<and> m_curlerr s' = e \<and>
              m_worker s' = Some Exited"
  using assms
proof (induction cbs arbitrary: s n)
  case Nil
  then obtain m where n: "n = Suc m" by (cases n) auto
  let ?s1 = "s\<lparr> m_curlresult := r, m_curlerr := e, m_started := True, m_worker := Some Exited \<rparr>"
  have st: "worker_step wp s = Some ?s1" using Nil by (simp add: worker_step_def)
  have "worker_steps wp m ?s1 = Some ?s1" by (rule worker_steps_exited) simp
  with st n show ?case by simp
next
  case (Cons cb cbs)
  then obtain m where n: "n = Suc m" and m: "length cbs < m" by (cases n) auto
  from callback_step_total[OF Cons.prems(1), of wp cb] obtain s1 where c: "callback_step wp cb s = Some s1" ..
  let ?s1 = "s1\<lparr> m_worker := Some (Performing cbs r e) \<rparr>"
  have st: "worker_step wp s = Some ?s1" using Cons.prems(2) c by (simp add: worker_step_def)
  have b: "m_buffersize ?s1 \<noteq> 0" using callback_step_fields(1)[OF c] Cons.prems(1) by simp
  have w: "m_worker ?s1 = Some (Performing cbs r e)" by simp
  from Cons.IH[OF b w m] obtain s' where
    "worker_steps wp m ?s1 = Some s'" "m_curlresult s' = r" "m_curlerr s' = e"
    "m_worker s' = Some Exited" by auto
  with st n show ?case by simp
qed

text \<open>
  What \<^verbatim>\<open>start\<close> does once the session is set up, for every transfer and every delay
  between the release of the caller and its reading of \<^verbatim>\<open>m_curlresult\<close>. The caller
  is released by the first write that stores data or by the end of the transfer. It raises
  exactly when the transfer ends in failure and has ended by the time the result is read:
  either no callback produced data, or the worker ran through the rest of the transfer
  within the delay. Otherwise, also while a transfer that will fail is still running, it
  returns \<^verbatim>\<open>readpos\<close>.
\<close>

lemma start_result_at_observation:
  assumes idle: "m_worker s = None" "\<not> m_started s"
      and cap: "m_buffersize s \<noteq> 0"
      and cfg: "t_init_ok tr" "setopt_chain (take 11 (t_setopt tr)) = CURLE_OK"
      and s1: "s1 = s\<lparr> m_curl := Some \<lparr> c_url = u, c_range = None, c_paused = False \<rparr> \<rparr>"
  shows "(t_result tr \<noteq> CURLE_OK \<and>
          (data_produced wp (t_callbacks tr) s1 \<longrightarrow>
             length (rest_after_data wp (t_callbacks tr) s1) < t_latency tr) \<longrightarrow>
            (\<exists>s'. start wp tr (Some u) s =
                     Some (Inl (String_exception
                                  [Str ''start'', Str '': failed to start transfer for url '', Str u,
                                   Str '': '', Str (t_errtext tr)]), s'))) \<and>
         (t_result tr = CURLE_OK \<or>
          (data_produced wp (t_callbacks tr) s1 \<and>
             t_latency tr \<le> length (rest_after_data wp (t_callbacks tr) s1)) \<longrightarrow>
            (\<exists>s'. start wp tr (Some u) s = Some (Inr (m_readpos s'), s') \<and>
                  (m_readpos s = m_startpos s \<longrightarrow> m_readpos s' = m_startpos s')))"
proof -
  let ?cbs = "t_callbacks tr" and ?r = "t_result tr" and ?e = "t_errtext tr"
  let ?sp = "spawn tr s1"
  let ?pf = "?sp\<lparr> m_curlresult := CURLE_OK, m_curlerr := [], m_worker := Some (Performing ?cbs ?r ?e) \<rparr>"
  let ?rest = "rest_after_data wp ?cbs s1"
  have sp: "\<not> m_started ?sp" "m_worker ?sp = Some (Spawned ?cbs ?r ?e)" "m_buffersize ?sp \<noteq> 0"
    using idle cap by (simp_all add: spawn_def s1)
  have pf: "\<not> m_started ?pf" "m_worker ?pf = Some (Performing ?cbs ?r ?e)" "m_buffersize ?pf \<noteq> 0"
           "m_curlresult ?pf = CURLE_OK"
    using sp by simp_all
  have dp: "data_produced wp ?cbs ?pf = data_produced wp ?cbs s1"
    by (simp add: spawn_def data_produced_worker_upd data_produced_result_upd)
  have rd: "rest_after_data wp ?cbs ?pf = ?rest"
    by (simp add: spawn_def rest_after_data_worker_upd rest_after_data_result_upd)
  have w: "wait_until_started wp ?sp = wait_until_started wp ?pf"
    by (rule wait_spawned[OF sp(1,2)])
  note st = start_spawns[OF idle(1) cfg, of wp u, folded s1]
  have ended: "\<exists>s2. resume_after_started wp tr ?sp = Some s2 \<and> m_curlresult s2 = ?r \<and> m_curlerr s2 = ?e"
    if "data_produced wp ?cbs s1 \<longrightarrow> length ?rest < t_latency tr"
  proof (cases "data_produced wp ?cbs s1")
    case False
    then have "\<not> data_produced wp ?cbs ?pf" by (simp add: dp)
    from wait_no_data[OF pf(3,1,2) this] obtain s2 where
      ws: "wait_until_started wp ?pf = Some s2" and x: "m_worker s2 = Some Exited"
      and r: "m_curlresult s2 = ?r" "m_curlerr s2 = ?e" by auto
    have "resume_after_started wp tr ?sp = Some s2"
      by (simp add: resume_after_started_def w ws worker_steps_exited[OF x])
    with r show ?thesis by simp
  next
    case True
    then have d: "data_produced wp ?cbs ?pf" by (simp add: dp)
    from wait_data[OF pf(3,1,2) d] obtain s2 where
      ws: "wait_until_started wp ?pf = Some s2" and c2: "m_buffersize s2 \<noteq> 0"
      and w2: "m_worker s2 = Some (Performing ?rest ?r ?e)" by (auto simp: rd)
    from True that have "length ?rest < t_latency tr" by simp
    from worker_steps_exits[OF c2 w2 this, of wp] obtain s3 where
      wk: "worker_steps wp (t_latency tr) s2 = Some s3" and r: "m_curlresult s3 = ?r" "m_curlerr s3 = ?e"
      by auto
    have "resume_after_started wp tr ?sp = Some s3"
      by (simp add: resume_after_started_def w ws wk)
    with r show ?thesis by simp
  qed
  have running: "\<exists>s2. resume_after_started wp tr ?sp = Some s2 \<and> m_curlresult s2 = CURLE_OK"
    if "data_produced wp ?cbs s1" "t_latency tr \<le> length ?rest"
  proof -
    from that(1) have d: "data_produced wp ?cbs ?pf" by (simp add: dp)
    from wait_data[OF pf(3,1,2) d] pf(4) obtain s2 where
      ws: "wait_until_started wp ?pf = Some s2" and c2: "m_buffersize s2 \<noteq> 0"
      and r2: "m_curlresult s2 = CURLE_OK"
      and w2: "m_worker s2 = Some (Performing ?rest ?r ?e)" by (auto simp: rd)
    from worker_steps_performing[OF c2 w2 that(2), of wp] r2 obtain s3 where
      wk: "worker_steps wp (t_latency tr) s2 = Some s3" and r: "m_curlresult s3 = CURLE_OK"
      by auto
    have "resume_after_started wp tr ?sp = Some s3"
      by (simp add: resume_after_started_def w ws wk)
    with r show ?thesis by simp
  qed
  have pos: "m_readpos s2 = m_startpos s2"
    if "resume_after_started wp tr ?sp = Some s2" "m_readpos s = m_startpos s" for s2
  proof -
    have "m_readpos ?sp = m_startpos ?sp" using that(2) by (simp add: spawn_def s1)
    from resume_after_started_inv[OF that(1), of "\<lambda>a. m_readpos a = m_startpos a", OF this]
         worker_step_fields(5)
    show ?thesis by blast
  qed
  show ?thesis
  proof (intro conjI impI)
    assume a: "?r \<noteq> CURLE_OK \<and> (data_produced wp ?cbs s1 \<longrightarrow> length ?rest < t_latency tr)"
    then obtain s2 where "resume_after_started wp tr ?sp = Some s2"
      "m_curlresult s2 = ?r" "m_curlerr s2 = ?e" using ended by blast
    with a show "\<exists>s'. start wp tr (Some u) s =
                     Some (Inl (String_exception
                                  [Str ''start'', Str '': failed to start transfer for url '', Str u,
                                   Str '': '', Str ?e]), s')"
      by (simp add: st)
  next
    assume a: "?r = CURLE_OK \<or> (data_produced wp ?cbs s1 \<and> t_latency tr \<le> length ?rest)"
    have "\<exists>s2. resume_after_started wp tr ?sp = Some s2 \<and> m_curlresult s2 = CURLE_OK"
    proof (cases "data_produced wp ?cbs s1 \<and> t_latency tr \<le> length ?rest")
      case True
      then show ?thesis using running by blast
    next
      case False
      with a have ok: "?r = CURLE_OK" by blast
      from False have "data_produced wp ?cbs s1 \<longrightarrow> length ?rest < t_latency tr" by auto
      from ended[OF this] ok show ?thesis by auto
    qed
    then obtain s2 where rs: "resume_after_started wp tr ?sp = Some s2"
      and ok: "m_curlresult s2 = CURLE_OK" by auto
    from rs ok pos[OF rs]
    show "\<exists>s'. start wp tr (Some u) s = Some (Inr (m_readpos s'), s') \<and>
               (m_readpos s = m_startpos s \<longrightarrow> m_readpos s' = m_startpos s')"
      by (simp add: st)
  qed
qed

lemma header_sets_positions:
  assumes "length line = unat (sz * count)" and "CHR 0x00 \<notin> set line"
      and c: "content_range_line line v"
  shows "snd (curl_responseheaders line sz count s) =
           s\<lparr> m_startpos := v, m_readpos := v, m_writepos := v \<rparr>"
proof -
  have sc: "sscanf_content_range (c_str line) = Some v"
    using c by (simp add: sscanf_content_range_shape c_str_no_nul[OF assms(2)])
  from c obtain x where l: "line = ''Content-Range:'' @ x"
    unfolding content_range_line_def by blast
  then have tk: "take 14 line = ''Content-Range:''" by simp
  from l have "14 \<le> length line" by simp
  then have ge: "14 \<le> sz * count" and nz: "sz * count \<noteq> 0"
    using assms(1) by (auto simp: word_le_nat_alt)
  show ?thesis
    using ge nz tk sc by (simp add: curl_responseheaders_def Let_def)
qed

lemma callback_step_keeps_positions:
  assumes "\<not> is_header cb" and "callback_step wp cb s = Some s'"
  shows "m_readpos s' = m_readpos s" and "m_startpos s' = m_startpos s"
proof -
  have "m_readpos s' = m_readpos s \<and> m_startpos s' = m_startpos s"
  proof (cases cb)
    case (Header d sz n)
    with assms(1) show ?thesis by (simp add: is_header_def)
  next
    case (Write d sz n)
    with assms obtain r s1 where cw: "curl_write wp d sz n s = Some (r, s1)"
      and s': "s' = s1 \<or> s' = s1\<lparr> m_curl := transport_pause (m_curl s1) \<rparr>"
      by (auto simp: callback_step_def split: option.splits if_splits)
    from s' curl_write_fields(10,11)[OF cw] show ?thesis by auto
  next
    case XferInfo
    with assms have "s' = snd (curl_transfercontrol s)" by (simp add: callback_step_def)
    from curl_transfercontrol_fields(9,10)[OF this] show ?thesis by simp
  qed
  then show "m_readpos s' = m_readpos s" and "m_startpos s' = m_startpos s" by simp_all
qed

lemma range_reported_step:
  assumes line: "length line = unat (sz * n)" "CHR 0x00 \<notin> set line" "content_range_line line v"
      and inv: "range_reported (Header line sz n) v a \<and> (m_worker a = Some Exited \<longrightarrow> m_started a)"
      and st: "worker_step wp a = Some b"
  shows "range_reported (Header line sz n) v b \<and> (m_worker b = Some Exited \<longrightarrow> m_started b)"
proof (cases "m_worker a")
  case None
  with inv show ?thesis by (simp add: range_reported_def)
next
  case (Some w)
  show ?thesis
  proof (cases w)
    case (Spawned cs r e)
    with Some inv st show ?thesis by (auto simp: worker_step_def range_reported_def)
  next
    case (Performing cs r e)
    show ?thesis
    proof (cases cs)
      case Nil
      with Some Performing inv st show ?thesis by (auto simp: worker_step_def range_reported_def)
    next
      case (Cons cb cs')
      with Some Performing st obtain s1 where c: "callback_step wp cb a = Some s1"
        and b: "b = s1\<lparr> m_worker := Some (Performing cs' r e) \<rparr>"
        by (auto simp: worker_step_def split: option.splits)
      from inv Some Performing Cons
      consider (pending) "cb = Header line sz n" "list_all (\<lambda>cb. \<not> is_header cb) cs'"
        | (past) "\<not> is_header cb" "list_all (\<lambda>cb. \<not> is_header cb) cs'"
                 "m_readpos a = v" "m_startpos a = v"
        by (auto simp: range_reported_def)
      then show ?thesis
      proof cases
        case pending
        with c have "s1 = snd (curl_responseheaders line sz n a)" by (simp add: callback_step_def)
        then have "m_readpos s1 = v" "m_startpos s1 = v"
          by (simp_all add: header_sets_positions[OF line])
        with pending(2) show ?thesis unfolding b by (simp add: range_reported_def)
      next
        case past
        from callback_step_keeps_positions[OF past(1) c] past(2,3,4)
        show ?thesis unfolding b by (simp add: range_reported_def)
      qed
    qed
  next
    case Exited
    with Some inv st show ?thesis by (auto simp: worker_step_def)
  qed
qed

text \<open>
  The position returned is the one the server reports: when the transfer's first callback
  is the header line that carries the range start \<open>v\<close> and no other header callback
  follows, every return of \<^verbatim>\<open>start\<close> gives \<open>v\<close>, and \<^verbatim>\<open>startpos\<close> is \<open>v\<close> then.
\<close>

lemma start_returns_reported_start:
  assumes idle: "m_worker s = None" "\<not> m_started s"
      and hdr: "t_callbacks tr = Header line sz n # cbs" "list_all (\<lambda>cb. \<not> is_header cb) cbs"
      and line: "length line = unat (sz * n)" "CHR 0x00 \<notin> set line" "content_range_line line v"
      and ret: "start wp tr (Some u) s = Some (Inr p, s')"
  shows "p = v \<and> m_readpos s' = v \<and> m_startpos s' = v"
proof -
  let ?s1 = "s\<lparr> m_curl := Some \<lparr> c_url = u, c_range = None, c_paused = False \<rparr> \<rparr>"
  let ?P = "\<lambda>a. range_reported (Header line sz n) v a \<and> (m_worker a = Some Exited \<longrightarrow> m_started a)"
  from ret idle(1) have rs: "resume_after_started wp tr (spawn tr ?s1) = Some s'"
    and p: "p = m_readpos s'"
    by (auto simp: start_def Let_def split: if_splits option.splits)
  have p0: "?P (spawn tr ?s1)"
    using idle(2) hdr by (simp add: spawn_def range_reported_def)
  from rs obtain sw where ws: "wait_until_started wp (spawn tr ?s1) = Some sw"
    and wk: "worker_steps wp (t_latency tr) sw = Some s'"
    by (auto simp: resume_after_started_def split: option.splits)
  from wait_until_started_inv[OF ws, of ?P, OF p0] range_reported_step[OF line]
  have pw: "?P sw \<and> m_started sw" by blast
  have "?P s' \<and> m_started s'"
    using worker_steps_inv[OF wk, of "\<lambda>a. ?P a \<and> m_started a", OF pw]
          range_reported_step[OF line] worker_step_fields(4) by blast
  then have "m_readpos s' = v \<and> m_startpos s' = v"
    by (auto simp: range_reported_def split: option.splits worker.splits)
  with p show ?thesis by simp
qed

lemma write_4_fresh:
  "write_loop 65536 0 [1, 2, 3, 4] (\<lambda>_. 0) 0 0 4 =
     Some (ring_put (\<lambda>_. 0) 65536 0 [1, 2, 3, 4], 4, 4)"
  using write_loop_whole[of "[1, 2, 3, 4]" 4 0 65536 0 "\<lambda>_. 0"] by simp

text \<open>
  The two lemmas at the sample transfers: the refused connection raises; the transfer that
  is cut after four bytes returns when the result is read at once and raises when it is
  read one step later; the ranged transfer returns the offset of its header line.
\<close>

lemma start_result_examples:
  "(\<exists>s'. start 16 refused_transfer (Some ''http://tuner/auto/v5.1'') fresh_instance =
           Some (Inl (String_exception
                        [Str ''start'', Str '': failed to start transfer for url '',
                         Str ''http://tuner/auto/v5.1'', Str '': '',
                         Str ''Failed to connect to tuner port 80: Connection refused'']), s')) \<and>
   (\<exists>s'. start 16 (cut_transfer 0) (Some ''http://tuner/auto/v5.1'') fresh_instance =
           Some (Inr (m_readpos s'), s') \<and> m_readpos s' = m_startpos s') \<and>
   (\<exists>s'. start 16 (cut_transfer 1) (Some ''http://tuner/auto/v5.1'') fresh_instance =
           Some (Inl (String_exception
                        [Str ''start'', Str '': failed to start transfer for url '',
                         Str ''http://tuner/auto/v5.1'', Str '': '',
                         Str ''Recv failure: Connection reset by peer'']), s')) \<and>
   (\<exists>s'. start 16 ranged_transfer (Some ''http://tuner/auto/v5.1'') fresh_instance =
           Some (Inr 1000, s') \<and> m_readpos s' = 1000 \<and> m_startpos s' = 1000)"
proof -
  let ?u = "''http://tuner/auto/v5.1''"
  let ?s1 = "fresh_instance\<lparr> m_curl := Some \<lparr> c_url = ?u, c_range = None, c_paused = False \<rparr> \<rparr>"
  let ?L = "''Content-Range: bytes 1000-1999/2000'' @ [CHR 0x0D, CHR 0x0A]"
  have i: "m_worker fresh_instance = None" "\<not> m_started fresh_instance"
          "m_buffersize fresh_instance \<noteq> 0"
    by (simp_all add: fresh_instance_def)
  have p: "m_readpos fresh_instance = m_startpos fresh_instance"
    by (simp add: fresh_instance_def)
  have g: "t_init_ok refused_transfer" "setopt_chain (take 11 (t_setopt refused_transfer)) = CURLE_OK"
          "t_init_ok ranged_transfer" "setopt_chain (take 11 (t_setopt ranged_transfer)) = CURLE_OK"
          "t_init_ok (cut_transfer d)" "setopt_chain (take 11 (t_setopt (cut_transfer d))) = CURLE_OK" for d
    by (simp_all add: refused_transfer_def ranged_transfer_def cut_transfer_def setopt_chain_def)
  have a: "t_result refused_transfer \<noteq> CURLE_OK \<and>
           (data_produced 16 (t_callbacks refused_transfer) ?s1 \<longrightarrow>
              length (rest_after_data 16 (t_callbacks refused_transfer) ?s1) < t_latency refused_transfer)"
    by (simp add: refused_transfer_def CURLE_OK_def)
  have pd: "produces_data 16 (Write (Some [1, 2, 3, 4]) 1 4) ?s1"
    by (simp add: fresh_instance_def produces_data_def curl_write_def write_4_fresh)
  have b: "t_result (cut_transfer 0) = CURLE_OK \<or>
           (data_produced 16 (t_callbacks (cut_transfer 0)) ?s1 \<and>
              t_latency (cut_transfer 0) \<le> length (rest_after_data 16 (t_callbacks (cut_transfer 0)) ?s1))"
    using pd by (simp add: cut_transfer_def)
  have c: "t_result (cut_transfer 1) \<noteq> CURLE_OK \<and>
           (data_produced 16 (t_callbacks (cut_transfer 1)) ?s1 \<longrightarrow>
              length (rest_after_data 16 (t_callbacks (cut_transfer 1)) ?s1) < t_latency (cut_transfer 1))"
    using pd by (simp add: cut_transfer_def CURLE_OK_def)
  have d: "t_result ranged_transfer = CURLE_OK \<or>
           (data_produced 16 (t_callbacks ranged_transfer) ?s1 \<and>
              t_latency ranged_transfer \<le> length (rest_after_data 16 (t_callbacks ranged_transfer) ?s1))"
    by (simp add: ranged_transfer_def)
  note x = start_result_at_observation[OF i g(1,2) refl, of 16 ?u, THEN conjunct1, rule_format, OF a]
  note y = start_result_at_observation[OF i g(5,6) refl, of 0 16 ?u, THEN conjunct2, rule_format, OF b]
  note z = start_result_at_observation[OF i g(5,6) refl, of 1 16 ?u, THEN conjunct1, rule_format, OF c]
  from start_result_at_observation[OF i g(3,4) refl, of 16 ?u, THEN conjunct2, rule_format, OF d]
  obtain s' where r: "start 16 ranged_transfer (Some ?u) fresh_instance = Some (Inr (m_readpos s'), s')"
    by blast
  have "sscanf_content_range ?L = Some 1000"
    by (simp add: sscanf_content_range_def scan_literal_def scan_llu_def
                  isspace_def isdigit_def decimal_val_def digit_val_def Let_def)
  then have l: "content_range_line ?L 1000" by (simp only: sscanf_content_range_shape)
  have h: "t_callbacks ranged_transfer = Header ?L 1 37 # [Write (Some [1, 2, 3, 4]) 1 4]"
          "list_all (\<lambda>cb. \<not> is_header cb) [Write (Some [1, 2, 3, 4]) 1 4]"
          "length ?L = unat ((1 :: size_t) * 37)" "CHR 0x00 \<notin> set ?L"
    by (simp_all add: ranged_transfer_def is_header_def)
  from start_returns_reported_start[OF i(1,2) h l r]
  have v: "m_readpos s' = 1000 \<and> m_readpos s' = 1000 \<and> m_startpos s' = 1000" .
  with r have w: "\<exists>s'. start 16 ranged_transfer (Some ?u) fresh_instance = Some (Inr 1000, s') \<and>
                       m_readpos s' = 1000 \<and> m_startpos s' = 1000"
    by auto
  have t: "t_errtext refused_transfer = ''Failed to connect to tuner port 80: Connection refused''"
          "t_errtext (cut_transfer 1) = ''Recv failure: Connection reset by peer''"
    by (simp_all add: refused_transfer_def cut_transfer_def)
  from y p have y': "\<exists>s'. start 16 (cut_transfer 0) (Some ?u) fresh_instance =
           Some (Inr (m_readpos s'), s') \<and> m_readpos s' = m_startpos s'" by simp
  from x[unfolded t] y' z[unfolded t] w show ?thesis by (intro conjI)
qed

text \<open>
  C1, evaluated where it fails. A fresh instance of capacity 65536 is started on a
  transfer that delivers four bytes in one write callback and then loses the connection,
  so that \<^verbatim>\<open>curl_easy_perform\<close> returns 56. The write callback stores the four bytes and
  sets \<^verbatim>\<open>m_started\<close>: data was produced and the caller is released. When the caller
  reads \<^verbatim>\<open>m_curlresult\<close> before the worker takes its next step, \<^verbatim>\<open>start\<close> returns
  \<^verbatim>\<open>readpos\<close>, 0. When the worker takes that one step first, which is the return of
  \<^verbatim>\<open>curl_easy_perform\<close> and the store of its result, \<^verbatim>\<open>start\<close> raises the
  transport-failed exception with the transport's error text, although the four bytes are
  in the ring and \<^verbatim>\<open>writepos\<close> is 4.
\<close>

theorem start_raises_after_data:
  "livestream_ctor 16 True (\<lambda>_. 0) 65520 = Inr fresh_instance \<and>
   t_callbacks (cut_transfer 1) = [Write (Some [1, 2, 3, 4]) 1 4] \<and>
   t_result (cut_transfer 1) = 56 \<and>
   data_produced 16 (t_callbacks (cut_transfer 1))
     (fresh_instance\<lparr> m_curl := Some \<lparr> c_url = ''http://tuner/auto/v5.1'', c_range = None, c_paused = False \<rparr> \<rparr>) \<and>
   map_option fst (start 16 (cut_transfer 0) (Some ''http://tuner/auto/v5.1'') fresh_instance) =
     Some (Inr 0) \<and>
   map_option fst (start 16 (cut_transfer 1) (Some ''http://tuner/auto/v5.1'') fresh_instance) =
     Some (Inl (String_exception
                  [Str ''start'', Str '': failed to start transfer for url '',
                   Str ''http://tuner/auto/v5.1'', Str '': '',
                   Str ''Recv failure: Connection reset by peer''])) \<and>
   map_option (\<lambda>r. (m_writepos (snd r), m_bufferhead (snd r), m_started (snd r)))
     (start 16 (cut_transfer 1) (Some ''http://tuner/auto/v5.1'') fresh_instance) =
     Some (4, 4, True)"
proof -
  have ctor: "livestream_ctor 16 True (\<lambda>_. 0) 65520 = Inr fresh_instance"
    by (simp add: livestream_ctor_def align_up_def fresh_instance_def)
  have tr: "t_callbacks (cut_transfer 1) = [Write (Some [1, 2, 3, 4]) 1 4]"
           "t_result (cut_transfer 1) = 56"
    by (simp_all add: cut_transfer_def)
  have dp: "data_produced 16 (t_callbacks (cut_transfer 1))
     (fresh_instance\<lparr> m_curl := Some \<lparr> c_url = ''http://tuner/auto/v5.1'', c_range = None, c_paused = False \<rparr> \<rparr>)"
    by (simp add: cut_transfer_def fresh_instance_def produces_data_def curl_write_def write_4_fresh)
  have at_once: "map_option fst (start 16 (cut_transfer 0) (Some ''http://tuner/auto/v5.1'') fresh_instance) =
     Some (Inr 0)"
    by (simp add: cut_transfer_def fresh_instance_def curl_write_def write_4_fresh
                  start_def setopt_chain_def resume_after_started_def spawn_def
                  wait_until_started.simps worker_step_def callback_step_def
                  CURLE_OK_def CURL_WRITEFUNC_PAUSE_def)
  have late: "map_option fst (start 16 (cut_transfer 1) (Some ''http://tuner/auto/v5.1'') fresh_instance) =
     Some (Inl (String_exception
                  [Str ''start'', Str '': failed to start transfer for url '',
                   Str ''http://tuner/auto/v5.1'', Str '': '',
                   Str ''Recv failure: Connection reset by peer'']))"
    by (simp add: cut_transfer_def fresh_instance_def curl_write_def write_4_fresh
                  start_def setopt_chain_def resume_after_started_def spawn_def
                  wait_until_started.simps worker_step_def callback_step_def
                  CURLE_OK_def CURL_WRITEFUNC_PAUSE_def)
  have buffered: "map_option (\<lambda>r. (m_writepos (snd r), m_bufferhead (snd r), m_started (snd r)))
     (start 16 (cut_transfer 1) (Some ''http://tuner/auto/v5.1'') fresh_instance) =
     Some (4, 4, True)"
    by (simp add: cut_transfer_def fresh_instance_def curl_write_def write_4_fresh
                  start_def setopt_chain_def resume_after_started_def spawn_def
                  wait_until_started.simps worker_step_def callback_step_def
                  CURLE_OK_def CURL_WRITEFUNC_PAUSE_def)
  from ctor tr dp at_once late buffered show ?thesis by (intro conjI)
qed

text \<open>The same outcome for every value of the write padding that leaves room for four bytes.\<close>

lemma start_race_any_padding:
  assumes "wp \<le> 65532"
  shows "map_option fst (start wp (cut_transfer 1) (Some ''http://tuner/auto/v5.1'') fresh_instance) =
     Some (Inl (String_exception
                  [Str ''start'', Str '': failed to start transfer for url '',
                   Str ''http://tuner/auto/v5.1'', Str '': '',
                   Str ''Recv failure: Connection reset by peer'']))"
proof -
  have "\<not> (65536 :: size_t) < 4 + wp" using assms by unat_arith
  then show ?thesis
    by (simp add: cut_transfer_def fresh_instance_def curl_write_def write_4_fresh
                start_def setopt_chain_def resume_after_started_def spawn_def
                wait_until_started.simps worker_step_def callback_step_def
                CURLE_OK_def CURL_WRITEFUNC_PAUSE_def)
qed

section \<open>The ring invariant\<close>

lemma curl_write_accepts:
  assumes len: "length bytes = unat (sz * count)" and n0: "sz * count \<noteq> 0"
      and nov: "unat (sz * count) + unat wp < 2 ^ 64"
      and hC: "m_bufferhead s < m_buffersize s" and tC: "m_buffertail s \<le> m_buffersize s"
  shows "curl_write wp (Some bytes) sz count s =
           (if unat (write_available s) < unat (sz * count) + unat wp
            then Some (CURL_WRITEFUNC_PAUSE, s\<lparr> m_paused := True \<rparr>)
            else Some (sz * count,
                    s\<lparr> m_buffer := ring_put (m_buffer s) (unat (m_buffersize s)) (unat (m_bufferhead s)) bytes,
                       m_bufferhead := of_nat ((unat (m_bufferhead s) + unat (sz * count)) mod unat (m_buffersize s)),
                       m_writepos := m_writepos s + sz * count,
                       m_length := (if m_writepos s + sz * count > m_length s
                                    then m_writepos s + sz * count else m_length s),
                       m_started := True \<rparr>))"
proof -
  let ?n = "sz * count"
  have nw: "unat (?n + wp) = unat ?n + unat wp"
    by (rule unat_add_lem[THEN iffD1]) (use nov in simp)
  have av: "(write_available s < ?n + wp) = (unat (write_available s) < unat ?n + unat wp)"
    by (simp add: word_less_nat_alt nw)
  show ?thesis
  proof (cases "unat (write_available s) < unat ?n + unat wp")
    case True
    then have "write_available s < ?n + wp" by (simp add: av)
    then show ?thesis
      using n0 True by (simp add: curl_write_def write_available_def Let_def)
  next
    case False
    then have nl: "\<not> write_available s < ?n + wp" by (simp add: av)
    from False have fit: "unat ?n \<le> unat (if m_bufferhead s < m_buffertail s
                         then m_buffertail s - m_bufferhead s
                         else (m_buffersize s - m_bufferhead s) + m_buffertail s)"
      by (simp add: write_available_def)
    have loop: "write_loop (m_buffersize s) (m_buffertail s) bytes (m_buffer s) (m_bufferhead s) 0 ?n =
                  Some (ring_put (m_buffer s) (unat (m_buffersize s)) (unat (m_bufferhead s)) bytes,
                        of_nat ((unat (m_bufferhead s) + unat ?n) mod unat (m_buffersize s)), ?n)"
      by (rule write_loop_whole[OF len n0 hC tC fit])
    from nl n0 False show ?thesis
      unfolding curl_write_def Let_def
      by (simp add: write_available_def[symmetric] loop)
  qed
qed

lemma unread_char:
  fixes H T C u :: nat
  assumes "H < C" "T < C" "u < C"
  shows "((H + C - T) mod C = u) = ((T + u) mod C = H)"
proof (cases "T \<le> H")
  case True
  then have a: "(H + C - T) mod C = H - T"
    using assms by (simp add: le_mod_geq)
  show ?thesis
  proof (cases "T + u < C")
    case True
    with a \<open>T \<le> H\<close> show ?thesis by auto
  next
    case False
    then have "(T + u) mod C = T + u - C" using assms by (simp add: le_mod_geq)
    with a \<open>T \<le> H\<close> False assms show ?thesis by auto
  qed
next
  case False
  then have a: "(H + C - T) mod C = H + C - T" using assms by simp
  show ?thesis
  proof (cases "T + u < C")
    case True
    with a False assms show ?thesis by auto
  next
    case nl: False
    then have "(T + u) mod C = T + u - C" using assms by (simp add: le_mod_geq)
    with a False nl assms show ?thesis by auto
  qed
qed

lemma write_available_unread:
  assumes "m_bufferhead s < m_buffersize s" "m_buffertail s < m_buffersize s"
  shows "unat (write_available s) =
           (if unread s = 0 \<and> m_bufferhead s < m_buffertail s then 0 else unat (m_buffersize s) - unread s)"
proof -
  let ?H = "unat (m_bufferhead s)" and ?T = "unat (m_buffertail s)" and ?C = "unat (m_buffersize s)"
  have HC: "?H < ?C" "?T < ?C" using assms by (simp_all add: word_less_nat_alt)
  show ?thesis
  proof (cases "m_bufferhead s < m_buffertail s")
    case True
    then have HT: "?H < ?T" by (simp add: word_less_nat_alt)
    have a: "unat (m_buffertail s - m_bufferhead s) = ?T - ?H"
      using True by (simp add: unat_sub less_imp_le)
    have u: "unread s = ?H + ?C - ?T" using HT HC by (simp add: unread_def)
    from HT HC have "unread s \<noteq> 0" unfolding u by linarith
    with True a u HT HC show ?thesis by (simp add: write_available_def)
  next
    case False
    then have TH: "?T \<le> ?H" by (simp add: not_less word_le_nat_alt)
    have ch: "unat (m_buffersize s - m_bufferhead s) = ?C - ?H"
      using assms(1) by (simp add: unat_sub less_imp_le)
    have "unat ((m_buffersize s - m_bufferhead s) + m_buffertail s)
            = unat (m_buffersize s - m_bufferhead s) + ?T"
      by (rule unat_add_bounded[of _ _ "m_buffersize s"]) (use ch TH HC in simp)
    then have a: "unat ((m_buffersize s - m_bufferhead s) + m_buffertail s) = ?C - ?H + ?T"
      by (simp add: ch)
    have u: "unread s = ?H - ?T" using TH HC by (simp add: unread_def le_mod_geq)
    from False a u TH HC show ?thesis by (simp add: write_available_def)
  qed
qed

lemma unat_of_nat_small:
  fixes c :: size_t
  assumes "x \<le> unat c"
  shows "unat (of_nat x :: size_t) = x"
  by (rule of_nat_inverse[OF refl]) (use assms unat_bound64[of c] in simp)

lemma unread_zero_iff:
  assumes "m_bufferhead s < m_buffersize s" "m_buffertail s < m_buffersize s"
  shows "(unread s = 0) = (m_bufferhead s = m_buffertail s)"
proof -
  let ?H = "unat (m_bufferhead s)" and ?T = "unat (m_buffertail s)" and ?C = "unat (m_buffersize s)"
  have HC: "?H < ?C" "?T < ?C" using assms by (simp_all add: word_less_nat_alt)
  have "(unread s = 0) = ((?T + 0) mod ?C = ?H)"
    unfolding unread_def using HC by (intro unread_char) simp_all
  also have "\<dots> = (?T = ?H)" using HC by simp
  also have "\<dots> = (m_bufferhead s = m_buffertail s)" by (auto simp: word_unat_eq_iff)
  finally show ?thesis .
qed

lemma ring_inv_write:
  assumes inv: "ring_inv wp s" and wp: "0 < wp"
      and cw: "curl_write wp (Some bytes) sz n s = Some (r, s')"
      and len: "length bytes = unat (sz * n)" and nov: "unat (sz * n) + unat wp < 2 ^ 64"
  shows "ring_inv wp s'"
proof (cases "sz * n = 0")
  case True
  with cw have "s' = s" by (simp add: curl_write_def)
  with inv show ?thesis by simp
next
  case False
  let ?H = "unat (m_bufferhead s)" and ?T = "unat (m_buffertail s)" and ?C = "unat (m_buffersize s)"
  let ?N = "unat (sz * n)" and ?W = "unat wp" and ?U = "unread s"
  from inv have hC: "m_bufferhead s < m_buffersize s" and tC: "m_buffertail s < m_buffersize s"
    and pos: "unat (m_writepos s - m_readpos s) = ?U" and pad: "?U = 0 \<or> ?U + ?W \<le> ?C"
    by (simp_all add: ring_inv_def)
  have HC: "?H < ?C" "?T < ?C" using hC tC by (simp_all add: word_less_nat_alt)
  have W: "0 < ?W" using wp by (simp add: word_less_nat_alt)
  have UC: "?U < ?C" unfolding unread_def using HC by simp
  note acc = curl_write_accepts[OF len False nov hC less_imp_le[OF tC]]
  show ?thesis
  proof (cases "unat (write_available s) < ?N + ?W")
    case True
    with cw acc have "s' = s\<lparr> m_paused := True \<rparr>" by simp
    with inv show ?thesis by (simp add: ring_inv_def unread_def)
  next
    case nf: False
    have av: "unat (write_available s) = ?C - ?U"
      using write_available_unread[OF hC tC] nf W by (auto split: if_splits)
    with nf have fit: "?U + ?N + ?W \<le> ?C" using UC by linarith
    let ?H' = "(?H + ?N) mod ?C"
    let ?X = "s\<lparr> m_buffer := ring_put (m_buffer s) ?C ?H bytes,
                       m_bufferhead := of_nat ?H',
                       m_writepos := m_writepos s + sz * n,
                       m_length := (if m_writepos s + sz * n > m_length s
                                    then m_writepos s + sz * n else m_length s),
                       m_started := True \<rparr>"
    have "curl_write wp (Some bytes) sz n s = Some (sz * n, ?X)"
      using acc nf by (simp only: if_False)
    then have "Some (r, s') = Some (sz * n, ?X)" by (rule trans[OF cw[symmetric]])
    then have s': "s' = ?X" by blast
    have H'C: "?H' < ?C" using HC by simp
    have uh: "unat (of_nat ?H' :: size_t) = ?H'"
      by (rule unat_of_nat_small[of _ "m_buffersize s"]) (use H'C in simp)
    have TU: "(?T + ?U) mod ?C = ?H"
      using unread_char[OF HC UC] by (simp add: unread_def)
    have "(?T + (?U + ?N)) mod ?C = ((?T + ?U) mod ?C + ?N) mod ?C"
      by (simp add: mod_add_left_eq add.assoc)
    then have "(?T + (?U + ?N)) mod ?C = ?H'" by (simp add: TU)
    moreover have UN: "?U + ?N < ?C" using fit W by linarith
    ultimately have u': "(?H' + ?C - ?T) mod ?C = ?U + ?N"
      using unread_char[OF H'C HC(2), of "?U + ?N"] by simp
    have e: "m_writepos s + sz * n - m_readpos s = (m_writepos s - m_readpos s) + sz * n" by simp
    have p': "unat (m_writepos s + sz * n - m_readpos s) = ?U + ?N"
      unfolding e
      using unat_add_bounded[of "m_writepos s - m_readpos s" "sz * n" "m_buffersize s"] pos UN
      by simp
    show ?thesis
      unfolding s' ring_inv_def unread_def
      using H'C tC u' p' fit by (simp add: uh word_less_nat_alt)
  qed
qed

lemma ring_inv_read:
  assumes inv: "ring_inv wp s"
      and rd: "read buffer count timeoutms s = Inr (k, dest, s')"
  shows "ring_inv wp s'"
proof (cases "count = 0 \<or> m_bufferhead s = m_buffertail s")
  case True
  with rd have "s' = s"
    by (auto simp: read_def Let_def split: option.splits if_splits)
  with inv show ?thesis by simp
next
  case False
  let ?H = "unat (m_bufferhead s)" and ?T = "unat (m_buffertail s)" and ?C = "unat (m_buffersize s)"
  let ?K = "unat count" and ?W = "unat wp" and ?U = "unread s"
  from inv have hC: "m_bufferhead s < m_buffersize s" and tC: "m_buffertail s < m_buffersize s"
    and pos: "unat (m_writepos s - m_readpos s) = ?U" and pad: "?U = 0 \<or> ?U + ?W \<le> ?C"
    by (simp_all add: ring_inv_def)
  have HC: "?H < ?C" "?T < ?C" using hC tC by (simp_all add: word_less_nat_alt)
  have UC: "?U < ?C" unfolding unread_def using HC by simp
  from False have k0: "count \<noteq> 0" and ht: "m_bufferhead s \<noteq> m_buffertail s" by simp_all
  have U0: "?U \<noteq> 0" using unread_zero_iff[OF hC tC] ht by simp
  have B: "(if m_buffertail s < m_bufferhead s then ?H - ?T else ?C - ?T + ?H) = ?U"
  proof (cases "m_buffertail s < m_bufferhead s")
    case True
    then have "?T < ?H" by (simp add: word_less_nat_alt)
    with True HC show ?thesis by (simp add: unread_def le_mod_geq)
  next
    case nl: False
    then have "m_bufferhead s \<le> m_buffertail s" by (simp add: not_less)
    with ht have "m_bufferhead s < m_buffertail s" by simp
    then have "?H < ?T" by (simp add: word_less_nat_alt)
    with nl HC show ?thesis by (simp add: unread_def)
  qed
  let ?m = "min ?K ?U"
  have loop: "read_loop (m_buffersize s) (m_buffer s) (m_bufferhead s) [] (m_buffertail s) 0 count =
           (ring_get (m_buffer s) ?C ?T ?m, of_nat ((?T + ?m) mod ?C), of_nat ?m)"
    using read_loop_result[OF k0 hC less_imp_le[OF tC] ht, of "m_buffer s"] by (simp only: B)
  let ?T' = "(?T + ?m) mod ?C"
  from rd False loop have s': "s' = s\<lparr> m_buffertail := of_nat ?T', m_readpos := m_readpos s + of_nat ?m \<rparr>"
    by (auto simp: read_def Let_def split: option.splits if_splits simp del: of_nat_add)
  have T'C: "?T' < ?C" using HC by simp
  have ut: "unat (of_nat ?T' :: size_t) = ?T'"
    by (rule unat_of_nat_small[of _ "m_buffersize s"]) (use T'C in simp)
  have mU: "?m \<le> ?U" by simp
  have um: "unat (of_nat ?m :: size_t) = ?m"
    by (rule unat_of_nat_small[of _ "m_buffersize s"]) (use mU UC in linarith)
  have TU: "(?T + ?U) mod ?C = ?H"
    using unread_char[OF HC UC] by (simp add: unread_def)
  have "(?T' + (?U - ?m)) mod ?C = (?T + ?m + (?U - ?m)) mod ?C"
    by (rule mod_add_left_eq)
  also have "\<dots> = (?T + ?U) mod ?C" using mU by simp
  finally have "(?T' + (?U - ?m)) mod ?C = ?H" by (simp add: TU)
  moreover have "?U - ?m < ?C" using UC by linarith
  ultimately have u': "(?H + ?C - ?T') mod ?C = ?U - ?m"
    using unread_char[OF HC(1) T'C, of "?U - ?m"] by simp
  have e: "m_writepos s - (m_readpos s + of_nat ?m) = (m_writepos s - m_readpos s) - of_nat ?m"
    by (simp only: diff_diff_eq)
  have "(of_nat ?m :: size_t) \<le> m_writepos s - m_readpos s"
    using mU by (simp only: word_le_nat_alt pos um)
  then have "unat ((m_writepos s - m_readpos s) - (of_nat ?m :: size_t)) = ?U - ?m"
    by (simp only: unat_sub pos um)
  then have p': "unat (m_writepos s - (m_readpos s + of_nat ?m)) = ?U - ?m"
    by (simp only: e)
  from pad U0 have pad': "?U - ?m = 0 \<or> ?U - ?m + ?W \<le> ?C" by linarith
  have f: "m_bufferhead s' = m_bufferhead s" "m_buffersize s' = m_buffersize s"
          "m_buffertail s' = of_nat ?T'" "m_writepos s' = m_writepos s"
          "m_readpos s' = m_readpos s + of_nat ?m"
    unfolding s' by simp_all
  have "unread s' = (?H + ?C - ?T') mod ?C"
    by (simp only: unread_def[of s'] f ut)
  then have ur: "unread s' = ?U - ?m" by (simp only: u')
  have t': "m_buffertail s' < m_buffersize s'"
    by (simp only: f word_less_nat_alt ut T'C)
  have h': "m_bufferhead s' < m_buffersize s'" by (simp only: f hC)
  have q': "unat (m_writepos s' - m_readpos s') = unread s'" by (simp only: f p' ur)
  have r': "unread s' = 0 \<or> unread s' + ?W \<le> unat (m_buffersize s')"
    using pad' by (simp only: f ur)
  from h' t' q' r' show ?thesis by (simp only: ring_inv_def simp_thms)
qed

text \<open>
  With a padding of at least one byte, writes and reads alone keep the ring's invariant:
  both indices stay below the capacity, and they are equal exactly when every byte
  written has been read.
\<close>

lemma rw_reach_ring_inv:
  assumes "0 < wp" and "rw_reach wp s"
  shows "ring_inv wp s"
  using assms(2)
proof (induction rule: rw_reach.induct)
  case (rw_init s)
  then show ?case by (simp add: ring_inv_def unread_def)
next
  case (rw_write s bytes sz n r s')
  from ring_inv_write[OF rw_write.IH assms(1) rw_write.hyps(2,3,4)] show ?case .
next
  case (rw_read s buffer count timeoutms k dest s')
  from ring_inv_read[OF rw_read.IH rw_read.hyps(2)] show ?case .
next
  case (rw_tick s)
  then show ?case by (simp add: ring_inv_def unread_def curl_transfercontrol_def)
qed

lemma ring_invariant_writes_reads:
  assumes "0 < wp" and "rw_reach wp s"
  shows "m_bufferhead s < m_buffersize s \<and> m_buffertail s < m_buffersize s \<and>
         (m_bufferhead s = m_buffertail s) = (m_writepos s = m_readpos s)"
proof -
  from rw_reach_ring_inv[OF assms] have inv: "ring_inv wp s" .
  then have hC: "m_bufferhead s < m_buffersize s" and tC: "m_buffertail s < m_buffersize s"
    and pos: "unat (m_writepos s - m_readpos s) = unread s"
    by (simp_all add: ring_inv_def)
  have "(m_writepos s = m_readpos s) = (unat (m_writepos s - m_readpos s) = 0)"
    by (simp add: unat_eq_zero)
  also have "\<dots> = (m_bufferhead s = m_buffertail s)"
    by (simp add: pos unread_zero_iff[OF hC tC])
  finally show ?thesis using hC tC by simp
qed

lemma length_chunk_of [simp]: "length (chunk_of n b) = n"
  by (simp add: chunk_of_def)

lemma ctor_fresh: "livestream_ctor 16 True (\<lambda>_. 0) 65520 = Inr fresh_instance"
  by (simp add: livestream_ctor_def align_up_def fresh_instance_def)

lemma first_half:
  "write_loop 65536 0 (chunk_of 32768 1) (\<lambda>_. 0) 0 0 32768 =
     Some (ring_put (\<lambda>_. 0) 65536 0 (chunk_of 32768 1), 32768, 32768)"
  using write_loop_whole[of "chunk_of 32768 1" 32768 0 65536 0 "\<lambda>_. 0"] by simp

lemma second_half:
  "write_loop 65536 32768 (chunk_of 32768 2) buf 32768 0 32768 =
     Some (ring_put buf 65536 32768 (chunk_of 32768 2), 0, 32768)"
  using write_loop_whole[of "chunk_of 32768 2" 32768 32768 65536 32768 buf] by simp

lemma after_two_halves_any:
  assumes "wp \<le> 32768"
  shows "after_two_halves wp = Some two_halves_state"
proof -
  have "\<not> (65536 :: size_t) < 32768 + wp" using assms by unat_arith
  then show ?thesis
  by (simp add: after_two_halves_def two_halves_def quiet_transport_def fresh_instance_def
                two_halves_state_def
                start_def setopt_chain_def resume_after_started_def spawn_def
                wait_until_started.simps worker_step_def callback_step_def
                curl_write_def first_half second_half seek_def
                CURLE_OK_def CURL_WRITEFUNC_PAUSE_def)
qed

text \<open>
  C7, evaluated where it fails. A fresh instance of capacity 65536 receives two chunks of
  32768 bytes, with a seek to position 32768 in between; head is then 0, tail 32768, and
  \<^verbatim>\<open>writepos - startpos\<close> equals the capacity. A seek to 65536, the current
  \<^verbatim>\<open>writepos\<close>, succeeds and stores the tail 65536, which is not below the capacity.
  A seek to 0 succeeds and stores the tail 0, equal to the head, although the ring holds
  the 65536 unread bytes from position 0 on; the next \<^verbatim>\<open>read\<close> finds head and tail
  equal and returns 0.
\<close>

theorem seek_breaks_ring_invariant:
  "livestream_ctor 16 True (\<lambda>_. 0) 65520 = Inr fresh_instance \<and>
   after_two_halves 16 = Some two_halves_state \<and>
   m_buffersize two_halves_state = 65536 \<and>
   seek 16 quiet_transport 65536 two_halves_state =
     Some (Inr 65536, two_halves_state\<lparr> m_buffertail := 65536, m_readpos := 65536 \<rparr>) \<and>
   seek 16 quiet_transport 0 two_halves_state =
     Some (Inr 0, two_halves_state\<lparr> m_buffertail := 0, m_readpos := 0 \<rparr>) \<and>
   m_bufferhead two_halves_state = 0 \<and> m_writepos two_halves_state = 65536 \<and>
   read (Some [9, 9, 9, 9]) 4 50 (two_halves_state\<lparr> m_buffertail := 0, m_readpos := 0 \<rparr>) =
     Inr (0, [9, 9, 9, 9], two_halves_state\<lparr> m_buffertail := 0, m_readpos := 0 \<rparr>)"
proof -
  have a: "after_two_halves 16 = Some two_halves_state"
    by (rule after_two_halves_any) simp
  show ?thesis
    by (simp add: ctor_fresh a) (simp add: two_halves_state_def seek_def read_def quiet_transport_def)
qed

end
